theory Spec2Isabelle
  imports Main "HOL-Library.Word"
begin

section \<open>Go strings and the library functions the program calls\<close>

text \<open>
  A Go \<^verbatim>\<open>string\<close> is a sequence of bytes, so it is modelled as \<^typ>\<open>string\<close>
  (a list of 8-bit characters). \<^verbatim>\<open>line[2:]\<close> is \<open>drop 2 line\<close> and
  \<^verbatim>\<open>a + b\<close> is \<open>a @ b\<close>.
\<close>

definition HasPrefix :: "string \<Rightarrow> string \<Rightarrow> bool" where
  \<comment> \<open>\<^verbatim>\<open>strings.HasPrefix(s, prefix)\<close>\<close>
  "HasPrefix s p \<longleftrightarrow> length p \<le> length s \<and> take (length p) s = p"

definition HasSuffix :: "string \<Rightarrow> string \<Rightarrow> bool" where
  \<comment> \<open>\<^verbatim>\<open>strings.HasSuffix(s, suffix)\<close>\<close>
  "HasSuffix s p \<longleftrightarrow> length p \<le> length s \<and> drop (length s - length p) s = p"

fun Contains :: "string \<Rightarrow> string \<Rightarrow> bool" where
  \<comment> \<open>\<^verbatim>\<open>strings.Contains(s, substr)\<close>: \<open>substr\<close> starts at some position of \<open>s\<close>\<close>
  "Contains [] sub = (sub = [])"
| "Contains (c # s) sub = (HasPrefix (c # s) sub \<or> Contains s sub)"

subsection \<open>\<^verbatim>\<open>strings.TrimSpace\<close>\<close>

text \<open>
  \<^verbatim>\<open>strings.TrimSpace\<close> removes leading and trailing white space as
  \<^verbatim>\<open>unicode.IsSpace\<close> defines it on the UTF-8 decoding of the string: the six
  ASCII characters tab, line feed, vertical tab, form feed, carriage return and space,
  and the code points U+0085, U+00A0, U+1680, U+2000 to U+200A, U+2028, U+2029,
  U+202F, U+205F and U+3000. \<open>spaceRunes\<close> lists their UTF-8 encodings. Each
  encoding is a lead byte followed by continuation bytes, so decoding from the left
  finds such a rune exactly when its encoding is a prefix, and decoding the last rune
  finds it exactly when its encoding is a suffix.
\<close>

definition asciiSpace :: "char list" where
  "asciiSpace = [CHR 0x09, CHR 0x0A, CHR 0x0B, CHR 0x0C, CHR 0x0D, CHR 0x20]"

definition unicodeSpace :: "string list" where
  "unicodeSpace =
    [[CHR 0xC2, CHR 0x85], [CHR 0xC2, CHR 0xA0], [CHR 0xE1, CHR 0x9A, CHR 0x80],
     [CHR 0xE2, CHR 0x80, CHR 0x80], [CHR 0xE2, CHR 0x80, CHR 0x81],
     [CHR 0xE2, CHR 0x80, CHR 0x82], [CHR 0xE2, CHR 0x80, CHR 0x83],
     [CHR 0xE2, CHR 0x80, CHR 0x84], [CHR 0xE2, CHR 0x80, CHR 0x85],
     [CHR 0xE2, CHR 0x80, CHR 0x86], [CHR 0xE2, CHR 0x80, CHR 0x87],
     [CHR 0xE2, CHR 0x80, CHR 0x88], [CHR 0xE2, CHR 0x80, CHR 0x89],
     [CHR 0xE2, CHR 0x80, CHR 0x8A], [CHR 0xE2, CHR 0x80, CHR 0xA8],
     [CHR 0xE2, CHR 0x80, CHR 0xA9], [CHR 0xE2, CHR 0x80, CHR 0xAF],
     [CHR 0xE2, CHR 0x81, CHR 0x9F], [CHR 0xE3, CHR 0x80, CHR 0x80]]"

definition spaceRunes :: "string list" where
  "spaceRunes = map (\<lambda>c. [c]) asciiSpace @ unicodeSpace"

definition leadingSpace :: "string \<Rightarrow> string option" where
  \<comment> \<open>the encoding of the white-space rune the string starts with, if it starts with one\<close>
  "leadingSpace s = find (HasPrefix s) spaceRunes"

definition trailingSpace :: "string \<Rightarrow> string option" where
  \<comment> \<open>the encoding of the white-space rune the string ends with, if it ends with one\<close>
  "trailingSpace s = find (HasSuffix s) spaceRunes"

lemma spaceRunes_length: "q \<in> set spaceRunes \<Longrightarrow> 0 < length q \<and> length q \<le> 3"
  by (auto simp: spaceRunes_def asciiSpace_def unicodeSpace_def)

lemma leadingSpace_Some:
  "leadingSpace s = Some q \<Longrightarrow> q \<in> set spaceRunes \<and> HasPrefix s q"
  by (auto simp: leadingSpace_def find_Some_iff)

lemma trailingSpace_Some:
  "trailingSpace s = Some q \<Longrightarrow> q \<in> set spaceRunes \<and> HasSuffix s q"
  by (auto simp: trailingSpace_def find_Some_iff)

function TrimLeft :: "string \<Rightarrow> string" where
  "TrimLeft s = (case leadingSpace s of None \<Rightarrow> s | Some q \<Rightarrow> TrimLeft (drop (length q) s))"
  by pat_completeness auto
termination
proof (relation "measure length")
  fix s q assume "leadingSpace s = Some q"
  then have "0 < length q" "length q \<le> length s"
    using leadingSpace_Some [of s q] spaceRunes_length [of q] by (auto simp: HasPrefix_def)
  then show "(drop (length q) s, s) \<in> measure length" by (cases q) auto
qed simp

function TrimRight :: "string \<Rightarrow> string" where
  "TrimRight s =
     (case trailingSpace s of None \<Rightarrow> s | Some q \<Rightarrow> TrimRight (take (length s - length q) s))"
  by pat_completeness auto
termination
proof (relation "measure length")
  fix s q assume "trailingSpace s = Some q"
  then have "0 < length q" "length q \<le> length s"
    using trailingSpace_Some [of s q] spaceRunes_length [of q] by (auto simp: HasSuffix_def)
  then show "(take (length s - length q) s, s) \<in> measure length" by (cases q) auto
qed simp

declare TrimLeft.simps [simp del] TrimRight.simps [simp del]

definition TrimSpace :: "string \<Rightarrow> string" where
  "TrimSpace s = TrimRight (TrimLeft s)"

subsection \<open>The regular expression \<^verbatim>\<open>^(\S+)\s+(\S+)\s+(\S+)\s+(\S+)\s+(\S+)\s+(.*)$\<close>\<close>

text \<open>
  In Go's \<^verbatim>\<open>regexp\<close> (RE2 syntax) \<^verbatim>\<open>\s\<close> is the class of tab, line feed,
  form feed, carriage return and space (not vertical tab), \<^verbatim>\<open>\S\<close> is its
  complement, and \<^verbatim>\<open>.\<close> is every character but the line feed. A match of the
  pattern splits the string into five maximal runs of \<^verbatim>\<open>\S\<close>, each followed by a
  maximal non-empty run of \<^verbatim>\<open>\s\<close>, and a rest without a line feed: a shorter run
  would leave the next group to start on the wrong class, and a shorter last
  \<^verbatim>\<open>\s+\<close> leaves \<^verbatim>\<open>(.*)\<close> the same line feeds to match. All the
  characters of \<^verbatim>\<open>\s\<close> are ASCII, so the split is the same on bytes as on runes.
\<close>

definition reSpace :: "char \<Rightarrow> bool" where
  "reSpace c \<longleftrightarrow> c \<in> {CHR 0x09, CHR 0x0A, CHR 0x0C, CHR 0x0D, CHR 0x20}"

definition fieldThenSpace :: "string \<Rightarrow> (string \<times> string) option" where
  \<comment> \<open>\<^verbatim>\<open>(\S+)\s+\<close> at the start of \<open>s\<close>: the group, and what follows the white space\<close>
  "fieldThenSpace s =
     (let f = takeWhile (\<lambda>c. \<not> reSpace c) s; r = dropWhile (\<lambda>c. \<not> reSpace c) s
      in if f = [] \<or> r = [] then None else Some (f, dropWhile reSpace r))"

fun groups :: "nat \<Rightarrow> string \<Rightarrow> (string list \<times> string) option" where
  \<comment> \<open>\<^verbatim>\<open>(\S+)\s+\<close> repeated \<open>k\<close> times: the groups, and what follows the last white space\<close>
  "groups 0 s = Some ([], s)"
| "groups (Suc k) s =
     (case fieldThenSpace s of
        None \<Rightarrow> None
      | Some (f, r) \<Rightarrow> (case groups k r of None \<Rightarrow> None | Some (fs, r') \<Rightarrow> Some (f # fs, r')))"

definition FindStringSubmatch :: "string \<Rightarrow> string list" where
  \<comment> \<open>\<^verbatim>\<open>cronRegex.FindStringSubmatch(s)\<close>: the match and its six groups, or \<open>[]\<close> for \<^verbatim>\<open>nil\<close>\<close>
  "FindStringSubmatch s =
     (case groups 5 s of
        None \<Rightarrow> []
      | Some (fs, r) \<Rightarrow> if CHR 0x0A \<in> set r then [] else s # fs @ [r])"

definition MatchString :: "string \<Rightarrow> bool" where
  \<comment> \<open>\<^verbatim>\<open>cronRegex.MatchString(s)\<close>\<close>
  "MatchString s \<longleftrightarrow> FindStringSubmatch s \<noteq> []"

subsection \<open>\<^verbatim>\<open>bufio.Scanner\<close> with the default split function \<^verbatim>\<open>ScanLines\<close>\<close>

text \<open>
  The scanner yields the text between line feeds, each token without one trailing
  carriage return (\<^verbatim>\<open>dropCR\<close>); a last line without a line feed is a token
  when it is not empty. The scanner's buffer holds at most \<^verbatim>\<open>MaxScanTokenSize\<close>
  = 65536 bytes: a line of that many bytes or more (before its line feed) makes
  \<^verbatim>\<open>Scan\<close> return false with \<^verbatim>\<open>ErrTooLong\<close>, and the program's loops
  \<^verbatim>\<open>for scanner.Scan()\<close> end there without looking at the error.
\<close>

definition MaxScanTokenSize :: nat where
  "MaxScanTokenSize = 65536"

definition dropCR :: "string \<Rightarrow> string" where
  "dropCR data = (if data \<noteq> [] \<and> last data = CHR 0x0D then butlast data else data)"

function scanLines :: "string \<Rightarrow> string list" where
  "scanLines s =
     (if s = [] then []
      else let data = takeWhile (\<lambda>c. c \<noteq> CHR 0x0A) s; rest = dropWhile (\<lambda>c. c \<noteq> CHR 0x0A) s
           in if MaxScanTokenSize \<le> length data then []
              else dropCR data # scanLines (tl rest))"
  by pat_completeness auto
termination
proof (relation "measure length")
  fix s :: string and data rest
  assume "s \<noteq> []" and "rest = dropWhile (\<lambda>c. c \<noteq> CHR 0x0A) s"
  then have "length (tl rest) < length s"
    by (cases s) (auto simp: less_Suc_eq_le length_dropWhile_le intro: le_trans [OF diff_le_self])
  then show "(tl rest, s) \<in> measure length" by simp
qed simp

declare scanLines.simps [simp del]

section \<open>The data model\<close>

text \<open>The struct \<^verbatim>\<open>CrontabEntry\<close>; Go's \<^verbatim>\<open>int\<close> is a 64-bit machine integer.\<close>

record CrontabEntry =
  ID :: "64 word"
  Minute :: string
  Hour :: string
  DayOfMonth :: string
  Month :: string
  DayOfWeek :: string
  Command :: string
  RawLine :: string
  Comment :: string
  Enabled :: bool

section \<open>The parser: \<^verbatim>\<open>parseCrontabOutput\<close>\<close>

definition entryOf :: "64 word \<Rightarrow> string list \<Rightarrow> string \<Rightarrow> bool \<Rightarrow> CrontabEntry" where
  \<comment> \<open>the struct literal both branches of the parser append\<close>
  "entryOf n matches line en =
     \<lparr>ID = n, Minute = matches ! 1, Hour = matches ! 2, DayOfMonth = matches ! 3,
      Month = matches ! 4, DayOfWeek = matches ! 5, Command = TrimSpace (matches ! 6),
      RawLine = line, Comment = [], Enabled = en\<rparr>"

definition parseLine :: "string \<Rightarrow> CrontabEntry list \<times> 64 word \<Rightarrow> CrontabEntry list \<times> 64 word" where
  \<comment> \<open>one pass of the loop body, on the slice \<open>entries\<close> and the global \<open>nextEntryID\<close>\<close>
  "parseLine line st =
     (let entries = fst st; nextEntryID = snd st in
      if TrimSpace line = [] then st
      else if HasPrefix line ''#'' then
        (if HasPrefix line ''# '' \<and> length (FindStringSubmatch (drop 2 line)) = 7
         then (entries @ [entryOf nextEntryID (FindStringSubmatch (drop 2 line)) line False],
               nextEntryID + 1)
         else st)
      else if Contains line ''='' \<and> \<not> HasPrefix line ''*'' then st
      else if length (FindStringSubmatch line) = 7
        then (entries @ [entryOf nextEntryID (FindStringSubmatch line) line True], nextEntryID + 1)
        else st)"

fun parseLoop :: "string list \<Rightarrow> CrontabEntry list \<times> 64 word \<Rightarrow> CrontabEntry list \<times> 64 word" where
  "parseLoop [] st = st"
| "parseLoop (line # rest) st = parseLoop rest (parseLine line st)"

definition parseCrontabOutput :: "64 word \<Rightarrow> string \<Rightarrow> CrontabEntry list \<times> 64 word" where
  \<comment> \<open>the entries, and the value the global counter \<open>nextEntryID\<close> is left with\<close>
  "parseCrontabOutput nextEntryID output = parseLoop (scanLines output) ([], nextEntryID)"

section \<open>The merge of \<^verbatim>\<open>updateCrontab\<close>\<close>

definition canonical :: "CrontabEntry \<Rightarrow> string" where
  \<comment> \<open>\<^verbatim>\<open>fmt.Sprintf("%s %s %s %s %s %s", Minute, Hour, DayOfMonth, Month, DayOfWeek, Command)\<close>\<close>
  "canonical entry =
     Minute entry @ '' '' @ Hour entry @ '' '' @ DayOfMonth entry @ '' '' @ Month entry @ '' '' @
     DayOfWeek entry @ '' '' @ Command entry"

definition emitEntry ::
  "CrontabEntry \<Rightarrow> string \<times> (string \<rightharpoonup> bool) \<Rightarrow> string \<times> (string \<rightharpoonup> bool)" where
  \<comment> \<open>one pass of the first loop, on the buffer \<open>newCrontabContent\<close> and the map
      \<open>existingRawLines\<close> (which the program writes and never reads)\<close>
  "emitEntry entry st =
     (let newCrontabContent = fst st; existingRawLines = snd st in
      if Enabled entry then
        (newCrontabContent @ canonical entry @ [CHR 0x0A], existingRawLines(RawLine entry \<mapsto> True))
      else if RawLine entry \<noteq> [] \<and> \<not> HasPrefix (RawLine entry) ''#'' then
        (newCrontabContent @ ''# '' @ RawLine entry @ [CHR 0x0A],
         existingRawLines(RawLine entry \<mapsto> True))
      else if RawLine entry \<noteq> [] \<and> HasPrefix (RawLine entry) ''#'' then
        (newCrontabContent @ RawLine entry @ [CHR 0x0A], existingRawLines(RawLine entry \<mapsto> True))
      else
        (newCrontabContent @ (''# '' @ canonical entry) @ [CHR 0x0A],
         existingRawLines(RawLine entry \<mapsto> True)))"

fun emitLoop ::
  "CrontabEntry list \<Rightarrow> string \<times> (string \<rightharpoonup> bool) \<Rightarrow> string \<times> (string \<rightharpoonup> bool)" where
  "emitLoop [] st = st"
| "emitLoop (entry # rest) st = emitLoop rest (emitEntry entry st)"

fun isManagedComment :: "CrontabEntry list \<Rightarrow> string \<Rightarrow> bool" where
  \<comment> \<open>the loop of lines 233 to 248; the second \<^verbatim>\<open>if\<close> of its body only tests a
      pattern and has an empty block\<close>
  "isManagedComment [] line = False"
| "isManagedComment (entry # rest) line =
     (if RawLine entry = line then True else isManagedComment rest line)"

fun found :: "CrontabEntry list \<Rightarrow> string \<Rightarrow> bool" where
  \<comment> \<open>the loop of lines 254 to 259\<close>
  "found [] line = False"
| "found (entry # rest) line = (if RawLine entry = line then True else found rest line)"

fun foundInUpdated :: "CrontabEntry list \<Rightarrow> string \<Rightarrow> bool" where
  \<comment> \<open>the loop of lines 270 to 283\<close>
  "foundInUpdated [] line = False"
| "foundInUpdated (entry # rest) line =
     (if RawLine entry = line then True
      else if HasPrefix line ''# '' \<and> Enabled entry \<and> canonical entry = drop 2 line then True
      else foundInUpdated rest line)"

definition mergeLine :: "CrontabEntry list \<Rightarrow> string \<Rightarrow> string \<Rightarrow> string" where
  \<comment> \<open>one pass of the second loop on the buffer \<open>newCrontabContent\<close>\<close>
  "mergeLine updatedEntries line newCrontabContent =
     (let trimmedLine = TrimSpace line in
      if trimmedLine = [] \<or> HasPrefix trimmedLine ''#'' then
        (if \<not> isManagedComment updatedEntries line \<and> \<not> MatchString line \<and> \<not> HasPrefix line ''# ''
         then (if \<not> found updatedEntries line
               then newCrontabContent @ line @ [CHR 0x0A] else newCrontabContent)
         else newCrontabContent)
      else if \<not> MatchString line \<and> \<not> foundInUpdated updatedEntries line
        then newCrontabContent @ line @ [CHR 0x0A]
        else newCrontabContent)"

fun mergeLoop :: "CrontabEntry list \<Rightarrow> string list \<Rightarrow> string \<Rightarrow> string" where
  "mergeLoop updatedEntries [] buf = buf"
| "mergeLoop updatedEntries (line # rest) buf =
     mergeLoop updatedEntries rest (mergeLine updatedEntries line buf)"

definition reconcile :: "CrontabEntry list \<Rightarrow> string \<Rightarrow> string" where
  \<comment> \<open>lines 172 to 290: the content written to the temporary file, from the decoded
      request body and the standard output of \<^verbatim>\<open>crontab -l\<close>\<close>
  "reconcile updatedEntries output =
     mergeLoop updatedEntries (scanLines output) (fst (emitLoop updatedEntries ([], Map.empty)))"

section \<open>The handler \<^verbatim>\<open>getCrontab\<close>\<close>

text \<open>
  \<^verbatim>\<open>cmd.Output()\<close> returns the standard output of \<^verbatim>\<open>crontab -l\<close> and an
  error. When the command exits with a non-zero status the error is an
  \<^verbatim>\<open>*exec.ExitError\<close>, which holds the process state and, in \<^verbatim>\<open>Stderr\<close>, the
  captured standard error; its \<^verbatim>\<open>Error()\<close> method, which \<^verbatim>\<open>%v\<close> prints, returns
  the process state as text (\<^verbatim>\<open>exit status 1\<close>). Every other error (the command could
  not be started) is modelled by its text.
\<close>

datatype cmdError = ExitError (ProcessState: string) (Stderr: string) | OtherError string

fun errorText :: "cmdError \<Rightarrow> string" where
  "errorText (ExitError ps se) = ps"
| "errorText (OtherError msg) = msg"

text \<open>
  What the handler writes to the \<^verbatim>\<open>http.ResponseWriter\<close>: the entries encoded as JSON,
  with the status 200, or the status and body of \<^verbatim>\<open>http.Error\<close>, which ends the
  message with a line feed. The process-wide variables are the state; the log is not
  modelled.
\<close>

datatype response = Entries "CrontabEntry list" | HttpError nat string

record server =
  currentCrontabEntries :: "CrontabEntry list"
  nextEntryID :: "64 word"

definition StatusInternalServerError :: nat where
  "StatusInternalServerError = 500"

definition getCrontab :: "server \<Rightarrow> string \<times> cmdError option \<Rightarrow> response \<times> server" where
  "getCrontab srv cmdOutput =
     (let output = fst cmdOutput in
      case snd cmdOutput of
        Some err \<Rightarrow>
          (case err of
             ExitError ps se \<Rightarrow>
               if Contains se ''no crontab for'' then (Entries [], srv)
               else (HttpError StatusInternalServerError
                       (''Failed to list crontab: '' @ errorText err @ [CHR 0x0A]), srv)
           | OtherError msg \<Rightarrow>
               (HttpError StatusInternalServerError
                  (''Failed to list crontab: '' @ errorText err @ [CHR 0x0A]), srv))
      | None \<Rightarrow>
          (let parsed = parseCrontabOutput (nextEntryID srv) output
           in (Entries (fst parsed),
               \<lparr>currentCrontabEntries = fst parsed, nextEntryID = snd parsed\<rparr>)))"

section \<open>What the merge writes\<close>

definition entryText :: "CrontabEntry \<Rightarrow> string" where
  \<comment> \<open>what the first loop writes for one entry\<close>
  "entryText entry = fst (emitEntry entry ([], Map.empty))"

definition preserved :: "CrontabEntry list \<Rightarrow> string \<Rightarrow> bool" where
  \<comment> \<open>the second loop writes the line\<close>
  "preserved updatedEntries line \<longleftrightarrow> mergeLine updatedEntries line [] \<noteq> []"

section \<open>Notions the proofs use\<close>

definition spaces :: "string \<Rightarrow> bool" where
  \<comment> \<open>a sequence of white-space runes\<close>
  "spaces s \<longleftrightarrow> (\<exists>qs. set qs \<subseteq> set spaceRunes \<and> s = concat qs)"

definition written :: "string list \<Rightarrow> string \<Rightarrow> string" where
  \<comment> \<open>fields, each followed by one space, and a rest: the shape of a canonical line\<close>
  "written fs r = concat (map (\<lambda>f. f @ '' '') fs) @ r"

type_synonym fields = "string \<times> string \<times> string \<times> string \<times> string \<times> string \<times> bool"

definition fieldsOf :: "CrontabEntry \<Rightarrow> fields" where
  \<comment> \<open>an entry without its \<open>ID\<close>, \<open>RawLine\<close> and \<open>Comment\<close>\<close>
  "fieldsOf e = (Minute e, Hour e, DayOfMonth e, Month e, DayOfWeek e, Command e, Enabled e)"

definition classify :: "string \<Rightarrow> fields option" where
  \<comment> \<open>the fields of the entry the parser's loop body appends for a line, if it appends one\<close>
  "classify line = (case fst (parseLine line ([], 0)) of [] \<Rightarrow> None | e # _ \<Rightarrow> Some (fieldsOf e))"

section \<open>The entries and the store text of the specification's scenarios\<close>

definition fooStore :: string where
  "fooStore = ''*/5 * * * * /usr/bin/foo\<newline>''"

definition fooEntry :: "64 word \<Rightarrow> CrontabEntry" where
  "fooEntry n =
     \<lparr>ID = n, Minute = ''*/5'', Hour = ''*'', DayOfMonth = ''*'', Month = ''*'', DayOfWeek = ''*'',
      Command = ''/usr/bin/foo'', RawLine = ''*/5 * * * * /usr/bin/foo'', Comment = [],
      Enabled = True\<rparr>"

definition backupEntry :: "64 word \<Rightarrow> CrontabEntry" where
  "backupEntry n =
     \<lparr>ID = n, Minute = ''0'', Hour = ''3'', DayOfMonth = ''*'', Month = ''*'', DayOfWeek = ''*'',
      Command = ''/bin/backup.sh'', RawLine = [], Comment = [], Enabled = True\<rparr>"

section \<open>What the two loops of the merge compute\<close>

lemma emitEntry_fst: "fst (emitEntry entry (buf, m)) = buf @ entryText entry"
  by (simp add: emitEntry_def entryText_def)

lemma emitLoop_fst: "fst (emitLoop es (buf, m)) = buf @ concat (map entryText es)"
proof (induction es arbitrary: buf m)
  case Nil
  show ?case by simp
next
  case (Cons e es)
  obtain buf' m' where st: "emitEntry e (buf, m) = (buf', m')"
    by (cases "emitEntry e (buf, m)")
  from emitEntry_fst [of e buf m] st have "buf' = buf @ entryText e" by simp
  with Cons.IH [of buf' m'] st show ?case by simp
qed

lemma entryText_cases:
  "entryText e =
     (if Enabled e then canonical e @ [CHR 0x0A]
      else if RawLine e = [] then ''# '' @ canonical e @ [CHR 0x0A]
      else if HasPrefix (RawLine e) ''#'' then RawLine e @ [CHR 0x0A]
      else ''# '' @ RawLine e @ [CHR 0x0A])"
  by (simp add: entryText_def emitEntry_def)

lemma isManagedComment_iff: "isManagedComment es line \<longleftrightarrow> line \<in> RawLine ` set es"
  by (induction es) auto

lemma found_iff: "found es line \<longleftrightarrow> line \<in> RawLine ` set es"
  by (induction es) auto

lemma foundInUpdated_iff:
  "foundInUpdated es line \<longleftrightarrow>
     line \<in> RawLine ` set es \<or>
     (HasPrefix line ''# '' \<and> (\<exists>e \<in> set es. Enabled e \<and> canonical e = drop 2 line))"
  by (induction es) auto

text \<open>A line that starts with \<open>#\<close> still starts with it after trimming.\<close>

lemma spaceRunes_hash: "q \<in> set spaceRunes \<Longrightarrow> CHR ''#'' \<notin> set q"
  by (auto simp: spaceRunes_def asciiSpace_def unicodeSpace_def)

lemma HasPrefix_hash: "HasPrefix s ''#'' \<longleftrightarrow> (\<exists>t. s = CHR ''#'' # t)"
  by (cases s) (auto simp: HasPrefix_def)

lemma TrimLeft_hash: "TrimLeft (CHR ''#'' # t) = CHR ''#'' # t"
proof -
  have "leadingSpace (CHR ''#'' # t) = None"
  proof (cases "leadingSpace (CHR ''#'' # t)")
    case (Some q)
    then have q: "q \<in> set spaceRunes" "HasPrefix (CHR ''#'' # t) q"
      using leadingSpace_Some by blast+
    then obtain c q' where "q = c # q'"
      using spaceRunes_length [of q] by (auto simp: neq_Nil_conv)
    with q(2) have "CHR ''#'' \<in> set q"
      by (simp add: HasPrefix_def)
    with q(1) show ?thesis using spaceRunes_hash by blast
  qed simp
  then show ?thesis by (simp add: TrimLeft.simps)
qed

lemma TrimRight_hash: "\<exists>u. TrimRight (CHR ''#'' # t) = CHR ''#'' # u"
proof (induction "CHR ''#'' # t" arbitrary: t rule: TrimRight.induct)
  case 1
  show ?case
  proof (cases "trailingSpace (CHR ''#'' # t)")
    case None
    then show ?thesis by (simp add: TrimRight.simps)
  next
    case (Some q)
    then have q: "q \<in> set spaceRunes" "HasSuffix (CHR ''#'' # t) q"
      using trailingSpace_Some by blast+
    have "length q \<le> length t"
    proof (rule ccontr)
      assume "\<not> length q \<le> length t"
      with q(2) have "q = CHR ''#'' # t" by (auto simp: HasSuffix_def)
      with q(1) show False using spaceRunes_hash by fastforce
    qed
    then have "take (length (CHR ''#'' # t) - length q) (CHR ''#'' # t)
                 = CHR ''#'' # take (length t - length q) t"
      by (simp add: Suc_diff_le)
    with "1" [OF Some] Some show ?thesis by (simp add: TrimRight.simps [of "CHR ''#'' # t"])
  qed
qed

lemma TrimSpace_hash: "HasPrefix s ''#'' \<Longrightarrow> HasPrefix (TrimSpace s) ''#''"
  using TrimRight_hash by (auto simp: HasPrefix_hash TrimSpace_def TrimLeft_hash)

lemma HasPrefix_hash_space: "HasPrefix s ''# '' \<Longrightarrow> HasPrefix s ''#''"
  by (cases s) (auto simp: HasPrefix_def)

lemma preserved_iff:
  "preserved es line \<longleftrightarrow>
     \<not> MatchString line \<and> line \<notin> RawLine ` set es \<and> \<not> HasPrefix line ''# ''"
proof (cases "TrimSpace line = [] \<or> HasPrefix (TrimSpace line) ''#''")
  case True
  then show ?thesis
    by (simp add: preserved_def mergeLine_def isManagedComment_iff found_iff)
next
  case False
  then have "\<not> HasPrefix line ''# ''"
    using TrimSpace_hash HasPrefix_hash_space by blast
  with False show ?thesis
    by (simp add: preserved_def mergeLine_def foundInUpdated_iff)
qed

lemma mergeLine_eq:
  "mergeLine es line buf = (if preserved es line then buf @ line @ [CHR 0x0A] else buf)"
  by (auto simp: preserved_def mergeLine_def Let_def)

lemma mergeLoop_eq:
  "mergeLoop es ls buf = buf @ concat (map (\<lambda>l. l @ [CHR 0x0A]) (filter (preserved es) ls))"
  by (induction ls arbitrary: buf) (simp_all add: mergeLine_eq)

lemma reconcile_eq:
  "reconcile es T =
     concat (map entryText es) @
     concat (map (\<lambda>l. l @ [CHR 0x0A]) (filter (preserved es) (scanLines T)))"
  by (simp add: reconcile_def mergeLoop_eq emitLoop_fst)

lemma reconcile_middle:
  "reconcile (es1 @ e # es2) T =
     concat (map entryText es1) @ entryText e @ concat (map entryText es2) @
     concat (map (\<lambda>l. l @ [CHR 0x0A]) (filter (preserved (es1 @ e # es2)) (scanLines T)))"
  by (simp add: reconcile_eq)

lemma Contains_single: "Contains s [c] \<longleftrightarrow> c \<in> set s"
  by (induction s) (auto simp: HasPrefix_def)

lemma scanLines_fooStore: "scanLines fooStore = [''*/5 * * * * /usr/bin/foo'']"
  by (simp add: fooStore_def scanLines.simps MaxScanTokenSize_def dropCR_def)

lemma preserved_RawLine: "e \<in> set es \<Longrightarrow> \<not> preserved es (RawLine e)"
  by (simp add: preserved_iff)

lemma parse_fooStore: "fst (parseCrontabOutput n fooStore) = [fooEntry n]"
proof -
  have t: "TrimSpace ''*/5 * * * * /usr/bin/foo'' = ''*/5 * * * * /usr/bin/foo''"
    by code_simp
  have m: "FindStringSubmatch ''*/5 * * * * /usr/bin/foo''
             = [''*/5 * * * * /usr/bin/foo'', ''*/5'', ''*'', ''*'', ''*'', ''*'', ''/usr/bin/foo'']"
    by code_simp
  have c: "TrimSpace ''/usr/bin/foo'' = ''/usr/bin/foo''"
    by code_simp
  have h: "\<not> HasPrefix ''*/5 * * * * /usr/bin/foo'' ''#''"
    by code_simp
  show ?thesis
    by (simp add: parseCrontabOutput_def scanLines_fooStore parseLine_def t m c h Contains_single entryOf_def
        fooEntry_def)
qed




text \<open>The lines the scanner yields, and the lines it reads back from written lines.\<close>

lemma length_dropCR: "length (dropCR data) \<le> length data"
  by (simp add: dropCR_def)

lemma set_dropCR: "set (dropCR data) \<subseteq> set data"
  by (auto simp: dropCR_def dest: in_set_butlastD)

lemma scanLines_lines:
  "l \<in> set (scanLines s) \<Longrightarrow> CHR 0x0A \<notin> set l \<and> length l < MaxScanTokenSize"
proof (induction s rule: scanLines.induct)
  case (1 s)
  let ?data = "takeWhile (\<lambda>c. c \<noteq> CHR 0x0A) s"
  let ?rest = "dropWhile (\<lambda>c. c \<noteq> CHR 0x0A) s"
  from "1.prems" have ne: "s \<noteq> []" and small: "\<not> MaxScanTokenSize \<le> length ?data"
    and mem: "l = dropCR ?data \<or> l \<in> set (scanLines (tl ?rest))"
    by (auto simp: scanLines.simps [of s] Let_def split: if_splits)
  from mem show ?case
  proof
    assume l: "l = dropCR ?data"
    have "CHR 0x0A \<notin> set ?data"
      by (auto dest: set_takeWhileD)
    with set_dropCR [of ?data] length_dropCR [of ?data] small l show ?thesis
      by auto
  next
    assume "l \<in> set (scanLines (tl ?rest))"
    with "1.IH" [OF ne refl refl small] show ?thesis by simp
  qed
qed

lemma scanLines_Nil: "scanLines [] = []"
  by (simp add: scanLines.simps)

lemma scanLines_line:
  assumes "CHR 0x0A \<notin> set l" and "length l < MaxScanTokenSize"
  shows "scanLines (l @ CHR 0x0A # rest) = dropCR l # scanLines rest"
proof -
  from assms(1) have "takeWhile (\<lambda>c. c \<noteq> CHR 0x0A) (l @ CHR 0x0A # rest) = l"
    and "dropWhile (\<lambda>c. c \<noteq> CHR 0x0A) (l @ CHR 0x0A # rest) = CHR 0x0A # rest"
    by (induction l) auto
  with assms(2) show ?thesis
    by (simp add: scanLines.simps [of "l @ CHR 0x0A # rest"])
qed

lemma scanLines_too_long:
  assumes "CHR 0x0A \<notin> set l" and "MaxScanTokenSize \<le> length l"
  shows "scanLines (l @ CHR 0x0A # rest) = []"
proof -
  from assms(1) have "takeWhile (\<lambda>c. c \<noteq> CHR 0x0A) (l @ CHR 0x0A # rest) = l"
    by (induction l) auto
  with assms(2) show ?thesis
    by (simp add: scanLines.simps [of "l @ CHR 0x0A # rest"])
qed

lemma scanLines_written:
  assumes "\<forall>l \<in> set ls. CHR 0x0A \<notin> set l \<and> length l < MaxScanTokenSize"
  shows "scanLines (concat (map (\<lambda>l. l @ [CHR 0x0A]) ls) @ rest) = map dropCR ls @ scanLines rest"
  using assms by (induction ls) (simp_all add: scanLines_line)

lemma dropCR_id: "\<not> HasSuffix l [CHR 0x0D] \<Longrightarrow> dropCR l = l"
  by (cases l rule: rev_cases) (auto simp: dropCR_def HasSuffix_def)

lemma dropCR_append: "c \<noteq> CHR 0x0D \<Longrightarrow> dropCR (a @ c # b) = a @ c # dropCR b"
  by (cases b rule: rev_cases) (auto simp: dropCR_def butlast_append)

text \<open>What a match of the pattern says about the string, and the strings that match.\<close>

lemma fieldThenSpace_SomeD:
  assumes "fieldThenSpace s = Some (f, r)"
  shows "f \<noteq> [] \<and> (\<forall>c \<in> set f. \<not> reSpace c) \<and>
         (\<exists>w. w \<noteq> [] \<and> (\<forall>c \<in> set w. reSpace c) \<and> s = f @ w @ r) \<and>
         dropWhile reSpace r = r"
proof -
  let ?d = "dropWhile (\<lambda>c. \<not> reSpace c) s"
  let ?w = "takeWhile reSpace ?d"
  from assms have f: "f = takeWhile (\<lambda>c. \<not> reSpace c) s" and ne: "f \<noteq> []" and d: "?d \<noteq> []"
    and r: "r = dropWhile reSpace ?d"
    by (auto simp: fieldThenSpace_def Let_def split: if_splits)
  from f have "\<forall>c \<in> set f. \<not> reSpace c"
    by (auto dest: set_takeWhileD)
  moreover from d have "reSpace (hd ?d)"
    using hd_dropWhile [of "\<lambda>c. \<not> reSpace c" s] by simp
  with d have "?w \<noteq> []" by (cases ?d) auto
  moreover have "\<forall>c \<in> set ?w. reSpace c"
    by (auto dest: set_takeWhileD)
  moreover have "s = f @ ?w @ r"
    unfolding f r by simp
  moreover from r have "dropWhile reSpace r = r" by simp
  ultimately show ?thesis using ne by blast
qed

lemma fieldThenSpace_field:
  assumes "f \<noteq> []" and "\<forall>c \<in> set f. \<not> reSpace c" and "reSpace w"
  shows "fieldThenSpace (f @ w # x) = Some (f, dropWhile reSpace x)"
proof -
  from assms(2,3) have "takeWhile (\<lambda>c. \<not> reSpace c) (f @ w # x) = f"
    and "dropWhile (\<lambda>c. \<not> reSpace c) (f @ w # x) = w # x"
    by (induction f) auto
  with assms(1,3) show ?thesis by (simp add: fieldThenSpace_def)
qed

lemma groups_SomeD:
  "groups k s = Some (fs, r) \<Longrightarrow>
     length fs = k \<and> (\<forall>f \<in> set fs. f \<noteq> [] \<and> (\<forall>c \<in> set f. \<not> reSpace c)) \<and>
     (\<exists>ws. length ws = k \<and> (\<forall>w \<in> set ws. w \<noteq> [] \<and> (\<forall>c \<in> set w. reSpace c)) \<and>
           s = concat (map2 (@) fs ws) @ r) \<and>
     (0 < k \<longrightarrow> dropWhile reSpace r = r)"
proof (induction k arbitrary: s fs)
  case 0
  then have "fs = []" "r = s" by simp_all
  then show ?case by simp
next
  case (Suc k)
  from Suc.prems obtain f s' fs' where a: "fieldThenSpace s = Some (f, s')"
    and b: "groups k s' = Some (fs', r)" and fs: "fs = f # fs'"
    by (auto split: option.splits)
  from fieldThenSpace_SomeD [OF a] obtain w where f: "f \<noteq> []" "\<forall>c \<in> set f. \<not> reSpace c"
    and w: "w \<noteq> []" "\<forall>c \<in> set w. reSpace c" and s: "s = f @ w @ s'"
    and d: "dropWhile reSpace s' = s'"
    by blast
  from Suc.IH [OF b] obtain ws where l: "length fs' = k"
    and fs': "\<forall>f \<in> set fs'. f \<noteq> [] \<and> (\<forall>c \<in> set f. \<not> reSpace c)"
    and ws: "length ws = k" "\<forall>w \<in> set ws. w \<noteq> [] \<and> (\<forall>c \<in> set w. reSpace c)"
    and s': "s' = concat (map2 (@) fs' ws) @ r" and r: "0 < k \<longrightarrow> dropWhile reSpace r = r"
    by blast
  have "dropWhile reSpace r = r"
  proof (cases k)
    case 0
    with b d show ?thesis by simp
  next
    case Suc
    with r show ?thesis by simp
  qed
  moreover from ws w have "length (w # ws) = Suc k"
    "\<forall>w \<in> set (w # ws). w \<noteq> [] \<and> (\<forall>c \<in> set w. reSpace c)"
    by simp_all
  moreover from s s' fs have "s = concat (map2 (@) fs (w # ws)) @ r" by simp
  ultimately show ?case using l f fs' fs by (intro conjI exI [of _ "w # ws"]) simp_all
qed

lemma reSpace_space: "reSpace CHR '' ''"
  by (simp add: reSpace_def)

lemma groups_written:
  "fs \<noteq> [] \<Longrightarrow> \<forall>f \<in> set fs. f \<noteq> [] \<and> (\<forall>c \<in> set f. \<not> reSpace c) \<Longrightarrow>
     groups (length fs) (written fs r) = Some (fs, dropWhile reSpace r)"
proof (induction fs)
  case Nil
  then show ?case by simp
next
  case (Cons f fs)
  then have f: "f \<noteq> []" "\<forall>c \<in> set f. \<not> reSpace c" by simp_all
  have w: "written (f # fs) r = f @ CHR '' '' # written fs r"
    by (simp add: written_def)
  show ?case
  proof (cases fs)
    case Nil
    with f show ?thesis
      by (simp add: written_def fieldThenSpace_field [OF f reSpace_space])
  next
    case (Cons g gs)
    with Cons.prems have g: "g \<noteq> []" "\<not> reSpace (hd g)" by (cases g; simp)+
    then have "dropWhile reSpace (written fs r) = written fs r"
      using Cons by (cases g) (simp_all add: written_def)
    moreover from Cons.IH Cons.prems Cons
    have "groups (length fs) (written fs r) = Some (fs, dropWhile reSpace r)" by simp
    ultimately show ?thesis
      by (simp add: w fieldThenSpace_field [OF f reSpace_space])
  qed
qed

lemma FindStringSubmatch_cases:
  "FindStringSubmatch s = [] \<or>
   (\<exists>a b c d e r. groups 5 s = Some ([a, b, c, d, e], r) \<and> CHR 0x0A \<notin> set r \<and>
      FindStringSubmatch s = [s, a, b, c, d, e, r])"
proof (cases "groups 5 s")
  case None
  then show ?thesis by (simp add: FindStringSubmatch_def)
next
  case (Some p)
  obtain fs r where p: "p = (fs, r)" by (cases p)
  with Some groups_SomeD [of 5 s fs r] have "length fs = 5" by simp
  then obtain a b c d e where "fs = [a, b, c, d, e]"
    by (auto simp: length_Suc_conv eval_nat_numeral)
  with Some p show ?thesis by (simp add: FindStringSubmatch_def)
qed

lemma MatchString_written:
  assumes "\<forall>f \<in> set [a, b, c, d, e]. f \<noteq> [] \<and> (\<forall>x \<in> set f. \<not> reSpace x)" and "CHR 0x0A \<notin> set r"
  shows "MatchString (written [a, b, c, d, e] r)"
proof -
  have l: "length [a, b, c, d, e] = 5" by simp
  from groups_written [of "[a, b, c, d, e]" r, unfolded l] assms(1)
  have "groups 5 (written [a, b, c, d, e] r) = Some ([a, b, c, d, e], dropWhile reSpace r)"
    by (simp del: groups.simps)
  moreover from assms(2) have "CHR 0x0A \<notin> set (dropWhile reSpace r)"
    by (auto dest: set_dropWhileD)
  ultimately show ?thesis by (simp add: MatchString_def FindStringSubmatch_def)
qed

lemma canonical_written:
  "canonical e = written [Minute e, Hour e, DayOfMonth e, Month e, DayOfWeek e] (Command e)"
  by (simp add: canonical_def written_def)

text \<open>What \<open>TrimSpace\<close> removes is a sequence of white-space runes on each side.\<close>

lemma spaces_Nil: "spaces []"
  unfolding spaces_def by (rule exI [of _ "[]"]) simp

lemma spaces_rune: "q \<in> set spaceRunes \<Longrightarrow> spaces q"
  unfolding spaces_def by (rule exI [of _ "[q]"]) simp

lemma spaces_append: "spaces a \<Longrightarrow> spaces b \<Longrightarrow> spaces (a @ b)"
proof -
  assume "spaces a" and "spaces b"
  then obtain qa qb where "set qa \<subseteq> set spaceRunes" "a = concat qa"
    and "set qb \<subseteq> set spaceRunes" "b = concat qb"
    unfolding spaces_def by blast
  then have "set (qa @ qb) \<subseteq> set spaceRunes \<and> a @ b = concat (qa @ qb)" by simp
  then show ?thesis unfolding spaces_def by blast
qed

lemma reSpace_rune: "reSpace c \<Longrightarrow> [c] \<in> set spaceRunes"
  by (auto simp: reSpace_def spaceRunes_def asciiSpace_def)

lemma spaces_reSpace: "\<forall>c \<in> set w. reSpace c \<Longrightarrow> spaces w"
proof (induction w)
  case Nil
  show ?case by (rule spaces_Nil)
next
  case (Cons c w)
  then have "spaces [c]" and "spaces w"
    by (simp_all add: reSpace_rune spaces_rune)
  then have "spaces ([c] @ w)" by (rule spaces_append)
  then show ?case by simp
qed

lemma HasPrefix_append: "HasPrefix s p \<longleftrightarrow> (\<exists>t. s = p @ t)"
  by (auto simp: HasPrefix_def) (metis append_take_drop_id)

lemma HasSuffix_append: "HasSuffix s p \<longleftrightarrow> (\<exists>t. s = t @ p)"
  by (auto simp: HasSuffix_def) (metis append_take_drop_id)

lemma leadingSpace_None: "leadingSpace s = None \<longleftrightarrow> (\<forall>q \<in> set spaceRunes. \<not> HasPrefix s q)"
  by (auto simp: leadingSpace_def find_None_iff)

lemma trailingSpace_None: "trailingSpace s = None \<longleftrightarrow> (\<forall>q \<in> set spaceRunes. \<not> HasSuffix s q)"
  by (auto simp: trailingSpace_def find_None_iff)

lemma TrimLeft_id: "leadingSpace s = None \<Longrightarrow> TrimLeft s = s"
  by (simp add: TrimLeft.simps)

lemma TrimRight_id: "trailingSpace s = None \<Longrightarrow> TrimRight s = s"
  by (simp add: TrimRight.simps)

lemma TrimLeft_decomp: "\<exists>p. spaces p \<and> s = p @ TrimLeft s"
proof (induction s rule: TrimLeft.induct)
  case (1 s)
  show ?case
  proof (cases "leadingSpace s")
    case None
    then show ?thesis using spaces_Nil by (auto simp: TrimLeft_id)
  next
    case (Some q)
    then have q: "q \<in> set spaceRunes" "HasPrefix s q"
      using leadingSpace_Some by blast+
    then have s: "s = q @ drop (length q) s"
      by (auto simp: HasPrefix_append)
    from "1.IH" [OF Some] obtain p where p: "spaces p" "drop (length q) s = p @ TrimLeft (drop (length q) s)"
      by blast
    from Some have t: "TrimLeft s = TrimLeft (drop (length q) s)"
      by (simp add: TrimLeft.simps [of s])
    from q(1) p(1) have "spaces (q @ p)"
      by (simp add: spaces_append spaces_rune)
    moreover from s p(2) t have "s = (q @ p) @ TrimLeft s" by simp
    ultimately show ?thesis by blast
  qed
qed

lemma TrimRight_decomp: "\<exists>p. spaces p \<and> s = TrimRight s @ p"
proof (induction s rule: TrimRight.induct)
  case (1 s)
  show ?case
  proof (cases "trailingSpace s")
    case None
    then show ?thesis using spaces_Nil by (auto simp: TrimRight_id)
  next
    case (Some q)
    then have q: "q \<in> set spaceRunes" "HasSuffix s q"
      using trailingSpace_Some by blast+
    then have s: "s = take (length s - length q) s @ q"
      by (auto simp: HasSuffix_append)
    from "1.IH" [OF Some] obtain p where p: "spaces p"
      "take (length s - length q) s = TrimRight (take (length s - length q) s) @ p"
      by blast
    from Some have t: "TrimRight s = TrimRight (take (length s - length q) s)"
      by (simp add: TrimRight.simps [of s])
    from q(1) p(1) have "spaces (p @ q)"
      by (simp add: spaces_append spaces_rune)
    moreover from s p(2) t have "s = TrimRight s @ (p @ q)" by (metis append.assoc)
    ultimately show ?thesis by blast
  qed
qed

lemma leadingSpace_TrimLeft: "leadingSpace (TrimLeft s) = None"
proof (induction s rule: TrimLeft.induct)
  case (1 s)
  show ?case
  proof (cases "leadingSpace s")
    case None
    then show ?thesis by (simp add: TrimLeft_id)
  next
    case (Some q)
    with "1.IH" [OF Some] show ?thesis by (simp add: TrimLeft.simps [of s])
  qed
qed

lemma trailingSpace_TrimRight: "trailingSpace (TrimRight s) = None"
proof (induction s rule: TrimRight.induct)
  case (1 s)
  show ?case
  proof (cases "trailingSpace s")
    case None
    then show ?thesis by (simp add: TrimRight_id)
  next
    case (Some q)
    with "1.IH" [OF Some] show ?thesis by (simp add: TrimRight.simps [of s])
  qed
qed

lemma leadingSpace_TrimRight: "leadingSpace s = None \<Longrightarrow> leadingSpace (TrimRight s) = None"
proof -
  assume n: "leadingSpace s = None"
  obtain p where "s = TrimRight s @ p" using TrimRight_decomp by blast
  then have "\<And>q. HasPrefix (TrimRight s) q \<Longrightarrow> HasPrefix s q"
    by (metis HasPrefix_append append.assoc)
  with n show ?thesis by (auto simp: leadingSpace_None)
qed

lemma leadingSpace_TrimSpace: "leadingSpace (TrimSpace s) = None"
  by (simp add: TrimSpace_def leadingSpace_TrimRight leadingSpace_TrimLeft)

lemma trailingSpace_TrimSpace: "trailingSpace (TrimSpace s) = None"
  by (simp add: TrimSpace_def trailingSpace_TrimRight)

lemma TrimSpace_idem: "TrimSpace (TrimSpace s) = TrimSpace s"
proof -
  have "TrimLeft (TrimSpace s) = TrimSpace s"
    by (simp add: TrimLeft_id leadingSpace_TrimSpace)
  then show ?thesis
    using trailingSpace_TrimSpace [of s] by (simp add: TrimSpace_def [of "TrimSpace s"] TrimRight_id)
qed

lemma TrimSpace_decomp: "\<exists>p p'. spaces p \<and> spaces p' \<and> s = p @ TrimSpace s @ p'"
proof -
  obtain p where p: "spaces p" "s = p @ TrimLeft s" using TrimLeft_decomp by blast
  obtain p' where p': "spaces p'" "TrimLeft s = TrimRight (TrimLeft s) @ p'"
    using TrimRight_decomp by blast
  from p(2) p'(2) have "s = p @ TrimSpace s @ p'" by (simp add: TrimSpace_def)
  with p(1) p'(1) show ?thesis by blast
qed

lemma set_TrimSpace: "set (TrimSpace s) \<subseteq> set s"
proof -
  obtain p p' where "s = p @ TrimSpace s @ p'" using TrimSpace_decomp by blast
  then have "set s = set p \<union> set (TrimSpace s) \<union> set p'" by (metis set_append sup_assoc)
  then show ?thesis by blast
qed

lemma length_TrimSpace: "length (TrimSpace s) \<le> length s"
proof -
  obtain p p' where "s = p @ TrimSpace s @ p'" using TrimSpace_decomp by blast
  then have "length s = length p + length (TrimSpace s) + length p'" by (metis length_append add.assoc)
  then show ?thesis by simp
qed

lemma TrimSpace_Nil_spaces: "TrimSpace s = [] \<Longrightarrow> spaces s"
proof -
  assume e: "TrimSpace s = []"
  obtain p p' where "spaces p" "spaces p'" "s = p @ TrimSpace s @ p'"
    using TrimSpace_decomp by blast
  with e show ?thesis by (simp add: spaces_append)
qed

text \<open>No white-space rune is a proper prefix of another: the first byte fixes the length.\<close>

lemma rune_length:
  "q \<in> set spaceRunes \<Longrightarrow>
     length q = (if hd q = CHR 0xC2 then 2 else if hd q \<in> {CHR 0xE1, CHR 0xE2, CHR 0xE3} then 3 else 1)"
  by (auto simp: spaceRunes_def asciiSpace_def unicodeSpace_def)

lemma rune_unique:
  assumes "q \<in> set spaceRunes" and "q' \<in> set spaceRunes" and "HasPrefix s q" and "HasPrefix s q'"
  shows "q = q'"
proof -
  from assms(1,2) have ne: "q \<noteq> []" "q' \<noteq> []"
    using spaceRunes_length by fastforce+
  from assms(3) obtain t where "s = q @ t"
    by (auto simp: HasPrefix_append)
  with ne(1) have "hd q = hd s" by simp
  from assms(4) obtain t' where "s = q' @ t'"
    by (auto simp: HasPrefix_append)
  with ne(2) have "hd q' = hd s" by simp
  note \<open>hd q = hd s\<close> \<open>hd q' = hd s\<close>
  with rune_length [OF assms(1)] rune_length [OF assms(2)] have "length q = length q'" by simp
  with assms(3,4) show ?thesis by (auto simp: HasPrefix_def)
qed

lemma leadingSpace_rune:
  assumes "q \<in> set spaceRunes"
  shows "leadingSpace (q @ s) = Some q"
proof (cases "leadingSpace (q @ s)")
  case None
  with assms show ?thesis by (auto simp: leadingSpace_None HasPrefix_append)
next
  case (Some q')
  then have "q' \<in> set spaceRunes" "HasPrefix (q @ s) q'"
    using leadingSpace_Some by blast+
  moreover have "HasPrefix (q @ s) q" by (auto simp: HasPrefix_append)
  ultimately have "q' = q" using assms rune_unique by blast
  with Some show ?thesis by simp
qed

lemma leadingSpace_Nil: "leadingSpace [] = None"
  using spaceRunes_length by (fastforce simp: leadingSpace_None HasPrefix_def)

lemma trailingSpace_Nil: "trailingSpace [] = None"
  using spaceRunes_length by (fastforce simp: trailingSpace_None HasSuffix_def)

lemma TrimLeft_runes: "set qs \<subseteq> set spaceRunes \<Longrightarrow> TrimLeft (concat qs) = []"
proof (induction qs)
  case Nil
  show ?case by (simp add: TrimLeft_id leadingSpace_Nil)
next
  case (Cons q qs)
  then have "leadingSpace (q @ concat qs) = Some q" by (simp add: leadingSpace_rune)
  with Cons show ?case by (simp add: TrimLeft.simps [of "q @ concat qs"])
qed

lemma TrimSpace_Nil_iff: "TrimSpace s = [] \<longleftrightarrow> spaces s"
proof
  assume "spaces s"
  then have "TrimLeft s = []" by (auto simp: spaces_def TrimLeft_runes)
  then show "TrimSpace s = []" by (simp add: TrimSpace_def TrimRight_id trailingSpace_Nil)
qed (rule TrimSpace_Nil_spaces)

text \<open>An ASCII white-space byte inside a sequence of white-space runes is a rune of its own.\<close>

lemma unicodeSpace_bytes: "q \<in> set unicodeSpace \<Longrightarrow> \<forall>c \<in> set q. \<not> reSpace c"
  by (auto simp: unicodeSpace_def reSpace_def)

lemma rune_reSpace:
  assumes "q \<in> set spaceRunes" and "c \<in> set q" and "reSpace c"
  shows "q = [c]"
proof -
  from assms(1) consider a where "q = [a]" | "q \<in> set unicodeSpace"
    by (auto simp: spaceRunes_def)
  then show ?thesis
  proof cases
    case 1
    with assms(2) show ?thesis by simp
  next
    case 2
    with assms(2,3) unicodeSpace_bytes show ?thesis by blast
  qed
qed

lemma runes_split:
  "set qs \<subseteq> set spaceRunes \<Longrightarrow> concat qs = x @ c # y \<Longrightarrow> reSpace c \<Longrightarrow> spaces x \<and> spaces y"
proof (induction qs arbitrary: x)
  case Nil
  then show ?case by simp
next
  case (Cons q qs)
  from Cons.prems(2) have "q @ concat qs = x @ c # y" by simp
  then consider u where "q = x @ u" "u @ concat qs = c # y"
    | u where "q @ u = x" "concat qs = u @ c # y"
    by (auto simp: append_eq_append_conv2)
  then show ?case
  proof cases
    case 1
    show ?thesis
    proof (cases u)
      case Nil
      with 1 have "concat qs = [] @ c # y" and "x = q" by simp_all
      with Cons.IH [of "[]"] Cons.prems show ?thesis by (simp add: spaces_rune)
    next
      case (Cons c' u')
      with 1 have "c' = c" and y: "y = u' @ concat qs" and q: "q = x @ c # u'" by simp_all
      from q Cons.prems(1,3) rune_reSpace [of q c] have "q = [c]" by simp
      with q have "x = [] \<and> u' = []" by (cases x) simp_all
      moreover from y this Cons.prems(1) have "spaces y"
        unfolding spaces_def by auto
      ultimately show ?thesis by (simp add: spaces_Nil)
    qed
  next
    case 2
    from Cons.IH [OF _ 2(2) Cons.prems(3)] Cons.prems(1) have "spaces u" "spaces y" by simp_all
    with 2(1) Cons.prems(1) show ?thesis
      using spaces_append [of q u] by (auto simp: spaces_rune)
  qed
qed

lemma spaces_split:
  assumes "spaces (x @ c # y)" and "reSpace c"
  shows "spaces x \<and> spaces y"
proof -
  from assms(1) obtain qs where "set qs \<subseteq> set spaceRunes" "concat qs = x @ c # y"
    unfolding spaces_def by metis
  with assms(2) show ?thesis using runes_split by blast
qed

lemma rune_no_eq: "q \<in> set spaceRunes \<Longrightarrow> CHR ''='' \<notin> set q"
  by (auto simp: spaceRunes_def asciiSpace_def unicodeSpace_def)

lemma spaces_no_eq: "spaces p \<Longrightarrow> CHR ''='' \<notin> set p"
  using rune_no_eq by (fastforce simp: spaces_def)

lemma eq_TrimSpace: "CHR ''='' \<in> set (TrimSpace s) \<longleftrightarrow> CHR ''='' \<in> set s"
proof -
  obtain p p' where "spaces p" "spaces p'" and s: "s = p @ TrimSpace s @ p'"
    using TrimSpace_decomp by blast
  then have "CHR ''='' \<notin> set p" "CHR ''='' \<notin> set p'" by (simp_all add: spaces_no_eq)
  moreover from s have "set s = set p \<union> set (TrimSpace s) \<union> set p'" by (metis set_append sup_assoc)
  ultimately show ?thesis by blast
qed

lemma TrimSpace_hd: "dropWhile reSpace (TrimSpace s) = TrimSpace s"
proof (cases "TrimSpace s")
  case (Cons c t)
  have "\<not> reSpace c"
  proof
    assume "reSpace c"
    then have "[c] \<in> set spaceRunes" by (rule reSpace_rune)
    moreover from Cons have "HasPrefix (TrimSpace s) [c]" by (simp add: HasPrefix_def)
    ultimately show False using leadingSpace_TrimSpace [of s] by (auto simp: leadingSpace_None)
  qed
  with Cons show ?thesis by simp
qed simp

lemma TrimSpace_no_CR: "\<not> HasSuffix (TrimSpace s) [CHR 0x0D]"
proof -
  have "[CHR 0x0D] \<in> set spaceRunes" by (simp add: spaceRunes_def asciiSpace_def)
  with trailingSpace_TrimSpace [of s] show ?thesis by (auto simp: trailingSpace_None)
qed

text \<open>The parser, line by line.\<close>

lemma FindStringSubmatch_Some:
  "groups 5 s = Some ([a, b, c, d, e], r) \<Longrightarrow> CHR 0x0A \<notin> set r \<Longrightarrow>
     FindStringSubmatch s = [s, a, b, c, d, e, r]"
  by (simp add: FindStringSubmatch_def)

lemma FindStringSubmatch_7:
  "length (FindStringSubmatch s) = 7 \<longleftrightarrow>
     (\<exists>a b c d e r. groups 5 s = Some ([a, b, c, d, e], r) \<and> CHR 0x0A \<notin> set r)"
  using FindStringSubmatch_cases [of s] by (auto simp: FindStringSubmatch_Some)

lemma MatchString_7: "MatchString s \<longleftrightarrow> length (FindStringSubmatch s) = 7"
  using FindStringSubmatch_cases [of s] by (auto simp: MatchString_def)

lemma classify_disabled:
  assumes "TrimSpace l \<noteq> []" and "HasPrefix l ''# ''"
    and "groups 5 (drop 2 l) = Some ([a, b, c, d, e], r)" and "CHR 0x0A \<notin> set r"
  shows "classify l = Some (a, b, c, d, e, TrimSpace r, False)"
  using assms HasPrefix_hash_space [of l]
  by (simp add: classify_def parseLine_def FindStringSubmatch_Some entryOf_def fieldsOf_def)

lemma classify_enabled:
  assumes "TrimSpace l \<noteq> []" and "\<not> HasPrefix l ''#''"
    and "\<not> (Contains l ''='' \<and> \<not> HasPrefix l ''*'')"
    and "groups 5 l = Some ([a, b, c, d, e], r)" and "CHR 0x0A \<notin> set r"
  shows "classify l = Some (a, b, c, d, e, TrimSpace r, True)"
  using assms
  by (simp add: classify_def parseLine_def FindStringSubmatch_Some entryOf_def fieldsOf_def)

lemma classify_SomeD:
  assumes "classify l = Some k"
  shows "TrimSpace l \<noteq> [] \<and>
    ((HasPrefix l ''# '' \<and>
      (\<exists>a b c d e r. groups 5 (drop 2 l) = Some ([a, b, c, d, e], r) \<and> CHR 0x0A \<notin> set r \<and>
         k = (a, b, c, d, e, TrimSpace r, False))) \<or>
     (\<not> HasPrefix l ''#'' \<and> \<not> (Contains l ''='' \<and> \<not> HasPrefix l ''*'') \<and>
      (\<exists>a b c d e r. groups 5 l = Some ([a, b, c, d, e], r) \<and> CHR 0x0A \<notin> set r \<and>
         k = (a, b, c, d, e, TrimSpace r, True))))"
proof -
  from assms have t: "TrimSpace l \<noteq> []"
    by (auto simp: classify_def parseLine_def split: if_splits)
  show ?thesis
  proof (cases "HasPrefix l ''#''")
    case True
    with assms t have p: "HasPrefix l ''# ''" and "length (FindStringSubmatch (drop 2 l)) = 7"
      by (auto simp: classify_def parseLine_def split: if_splits)
    then obtain a b c d e r where g: "groups 5 (drop 2 l) = Some ([a, b, c, d, e], r)"
      "CHR 0x0A \<notin> set r"
      by (auto simp: FindStringSubmatch_7)
    from classify_disabled [OF t p g] assms have "k = (a, b, c, d, e, TrimSpace r, False)" by simp
    with t p g show ?thesis by blast
  next
    case False
    with assms t have c: "\<not> (Contains l ''='' \<and> \<not> HasPrefix l ''*'')"
      and "length (FindStringSubmatch l) = 7"
      by (auto simp: classify_def parseLine_def split: if_splits)
    then obtain a b c d e r where g: "groups 5 l = Some ([a, b, c, d, e], r)" "CHR 0x0A \<notin> set r"
      by (auto simp: FindStringSubmatch_7)
    from classify_enabled [OF t False c g] assms have "k = (a, b, c, d, e, TrimSpace r, True)" by simp
    with t False c g show ?thesis by blast
  qed
qed

lemma classify_None: "\<not> MatchString l \<Longrightarrow> \<not> HasPrefix l ''# '' \<Longrightarrow> classify l = None"
  by (simp add: classify_def parseLine_def MatchString_7)

lemma parseLine_None: "classify line = None \<Longrightarrow> parseLine line st = st"
  by (auto simp: classify_def parseLine_def Let_def split: if_splits)

lemma parseLine_Some:
  "classify line = Some k \<Longrightarrow>
     \<exists>e. parseLine line st = (fst st @ [e], snd st + 1) \<and> fieldsOf e = k \<and> RawLine e = line"
  by (auto simp: classify_def parseLine_def Let_def entryOf_def fieldsOf_def split: if_splits)

lemma map_filter_append: "List.map_filter f (xs @ ys) = List.map_filter f xs @ List.map_filter f ys"
  by (simp add: List.map_filter_def)

lemma map_filter_Some:
  "(\<forall>x \<in> set xs. f (g x) = Some (h x)) \<Longrightarrow> List.map_filter f (map g xs) = map h xs"
  by (induction xs) (simp_all add: List.map_filter_simps)

lemma map_filter_None: "(\<forall>x \<in> set xs. f x = None) \<Longrightarrow> List.map_filter f xs = []"
  by (induction xs) (simp_all add: List.map_filter_simps)

lemma parseLoop_fields:
  "map fieldsOf (fst (parseLoop ls st)) = map fieldsOf (fst st) @ List.map_filter classify ls"
proof (induction ls arbitrary: st)
  case Nil
  show ?case by (simp add: List.map_filter_simps)
next
  case (Cons line ls)
  show ?case
  proof (cases "classify line")
    case None
    with Cons [of st] show ?thesis by (simp add: parseLine_None List.map_filter_simps)
  next
    case (Some k)
    from parseLine_Some [OF Some, of st] obtain e
      where "parseLine line st = (fst st @ [e], snd st + 1)" "fieldsOf e = k"
      by blast
    with Cons [of "(fst st @ [e], snd st + 1)"] Some show ?thesis
      by (simp add: List.map_filter_simps)
  qed
qed

lemma parseLoop_entry:
  "e \<in> set (fst (parseLoop ls st)) \<Longrightarrow>
     e \<in> set (fst st) \<or> (RawLine e \<in> set ls \<and> classify (RawLine e) = Some (fieldsOf e))"
proof (induction ls arbitrary: st)
  case Nil
  then show ?case by simp
next
  case (Cons line ls)
  from Cons.prems have m: "e \<in> set (fst (parseLoop ls (parseLine line st)))" by simp
  show ?case
  proof (cases "classify line")
    case None
    with Cons.IH [OF m] show ?thesis by (auto simp: parseLine_None)
  next
    case (Some k)
    from parseLine_Some [OF Some, of st] obtain x
      where x: "parseLine line st = (fst st @ [x], snd st + 1)" "fieldsOf x = k" "RawLine x = line"
      by blast
    with Cons.IH [OF m] Some show ?thesis by auto
  qed
qed

text \<open>The canonical line of a parsed enabled entry parses to the same fields.\<close>

lemma groups_5D:
  assumes "groups 5 s = Some ([a, b, c, d, e], r)"
  shows "\<exists>w1 w2 w3 w4 w5.
           s = a @ w1 @ b @ w2 @ c @ w3 @ d @ w4 @ e @ w5 @ r \<and>
           (\<forall>w \<in> set [w1, w2, w3, w4, w5]. w \<noteq> [] \<and> (\<forall>x \<in> set w. reSpace x)) \<and>
           (\<forall>f \<in> set [a, b, c, d, e]. f \<noteq> [] \<and> (\<forall>x \<in> set f. \<not> reSpace x)) \<and>
           dropWhile reSpace r = r"
proof -
  note D = groups_SomeD [OF assms]
  from D have fs: "\<forall>f \<in> set [a, b, c, d, e]. f \<noteq> [] \<and> (\<forall>x \<in> set f. \<not> reSpace x)"
    by (elim conjE)
  from D have r: "dropWhile reSpace r = r"
    by (elim conjE) simp
  from D obtain ws where ws: "length ws = 5"
    and wsp: "\<forall>w \<in> set ws. w \<noteq> [] \<and> (\<forall>x \<in> set w. reSpace x)"
    and s: "s = concat (map2 (@) [a, b, c, d, e] ws) @ r"
    by (elim conjE exE)
  from ws obtain w1 w2 w3 w4 w5 where w: "ws = [w1, w2, w3, w4, w5]"
    by (auto simp: length_Suc_conv eval_nat_numeral)
  from s have "s = a @ w1 @ b @ w2 @ c @ w3 @ d @ w4 @ e @ w5 @ r"
    unfolding w by simp
  moreover from wsp have "\<forall>w \<in> set [w1, w2, w3, w4, w5]. w \<noteq> [] \<and> (\<forall>x \<in> set w. reSpace x)"
    unfolding w .
  ultimately show ?thesis using fs r by blast
qed

lemma HasPrefix_single: "HasPrefix s [c] \<longleftrightarrow> s \<noteq> [] \<and> hd s = c"
  by (cases s) (auto simp: HasPrefix_def)

lemma HasSuffix_single: "HasSuffix s [c] \<longleftrightarrow> s \<noteq> [] \<and> last s = c"
  by (cases s rule: rev_cases) (auto simp: HasSuffix_def)

lemma reSpace_no_eq: "\<forall>x \<in> set w. reSpace x \<Longrightarrow> CHR ''='' \<notin> set w"
proof
  assume "\<forall>x \<in> set w. reSpace x" and "CHR ''='' \<in> set w"
  then have "reSpace CHR ''=''" by blast
  then show False by (simp add: reSpace_def)
qed

lemma classify_written:
  assumes "classify l = Some (a, b, c, d, e, cmd, True)" and "CHR 0x0A \<notin> set l"
  shows "classify (written [a, b, c, d, e] cmd) = Some (a, b, c, d, e, cmd, True) \<and>
         CHR 0x0A \<notin> set (written [a, b, c, d, e] cmd) \<and>
         length (written [a, b, c, d, e] cmd) \<le> length l \<and>
         \<not> HasSuffix (written [a, b, c, d, e] cmd) [CHR 0x0D]"
proof -
  let ?W = "written [a, b, c, d, e] cmd"
  from classify_SomeD [OF assms(1)] obtain r where t: "TrimSpace l \<noteq> []"
    and nh: "\<not> HasPrefix l ''#''" and ne: "\<not> (Contains l ''='' \<and> \<not> HasPrefix l ''*'')"
    and g: "groups 5 l = Some ([a, b, c, d, e], r)" and nr: "CHR 0x0A \<notin> set r"
    and cmd: "cmd = TrimSpace r"
    by auto
  from groups_5D [OF g] obtain w1 w2 w3 w4 w5
    where l: "l = a @ w1 @ b @ w2 @ c @ w3 @ d @ w4 @ e @ w5 @ r"
      and ws: "\<forall>w \<in> set [w1, w2, w3, w4, w5]. w \<noteq> [] \<and> (\<forall>x \<in> set w. reSpace x)"
      and fs: "\<forall>f \<in> set [a, b, c, d, e]. f \<noteq> [] \<and> (\<forall>x \<in> set f. \<not> reSpace x)"
      and dr: "dropWhile reSpace r = r"
    by (elim exE conjE)
  have W: "?W = a @ CHR '' '' # b @ CHR '' '' # c @ CHR '' '' # d @ CHR '' '' # e @ CHR '' '' # cmd"
    by (simp add: written_def)
  have len5: "length [a, b, c, d, e] = 5" by simp
  from fs have a: "a \<noteq> []" by simp
  \<comment> \<open>the pattern matches the canonical line, with the same groups\<close>
  from groups_written [of "[a, b, c, d, e]" cmd, unfolded len5] fs
  have "groups 5 ?W = Some ([a, b, c, d, e], dropWhile reSpace cmd)"
    by (simp del: groups.simps)
  then have gW: "groups 5 ?W = Some ([a, b, c, d, e], cmd)"
    by (simp add: cmd TrimSpace_hd del: groups.simps)
  from nr set_TrimSpace [of r] have ncmd: "CHR 0x0A \<notin> set cmd"
    unfolding cmd by blast
  \<comment> \<open>it is not blank\<close>
  have tW: "TrimSpace ?W \<noteq> []"
  proof
    assume "TrimSpace ?W = []"
    then have "spaces (a @ CHR '' '' # b @ CHR '' '' # c @ CHR '' '' # d @ CHR '' '' # e @ CHR '' '' # cmd)"
      by (simp add: TrimSpace_Nil_iff W)
    from spaces_split [OF this reSpace_space]
    have sa: "spaces a" and "spaces (b @ CHR '' '' # c @ CHR '' '' # d @ CHR '' '' # e @ CHR '' '' # cmd)"
      by simp_all
    from spaces_split [OF this(2) reSpace_space]
    have sb: "spaces b" and "spaces (c @ CHR '' '' # d @ CHR '' '' # e @ CHR '' '' # cmd)"
      by simp_all
    from spaces_split [OF this(2) reSpace_space]
    have sc: "spaces c" and "spaces (d @ CHR '' '' # e @ CHR '' '' # cmd)"
      by simp_all
    from spaces_split [OF this(2) reSpace_space]
    have sd: "spaces d" and "spaces (e @ CHR '' '' # cmd)"
      by simp_all
    from spaces_split [OF this(2) reSpace_space]
    have se: "spaces e" and "spaces cmd"
      by simp_all
    from \<open>spaces cmd\<close> have "TrimSpace cmd = []" by (simp add: TrimSpace_Nil_iff)
    then have "TrimSpace r = []" by (simp add: cmd TrimSpace_idem)
    then have sr: "spaces r" by (simp add: TrimSpace_Nil_iff)
    from ws have sw: "spaces w1" "spaces w2" "spaces w3" "spaces w4" "spaces w5"
      by (simp_all add: spaces_reSpace)
    have "spaces l"
      unfolding l by (intro spaces_append sa sb sc sd se sr sw)
    with t show False by (simp add: TrimSpace_Nil_iff)
  qed
  \<comment> \<open>it starts as the line does, and holds \<open>=\<close> when the line does\<close>
  from a have hd: "hd ?W = hd l" "?W \<noteq> []" "l \<noteq> []"
    by (simp_all add: W l)
  then have p: "HasPrefix ?W [x] \<longleftrightarrow> HasPrefix l [x]" for x
    by (simp add: HasPrefix_single)
  from ws have "CHR ''='' \<notin> set w1 \<union> set w2 \<union> set w3 \<union> set w4 \<union> set w5"
    by (simp add: reSpace_no_eq)
  moreover have "set ?W = set a \<union> set b \<union> set c \<union> set d \<union> set e \<union> {CHR '' ''} \<union> set cmd"
    by (auto simp: W)
  moreover have "set l = set a \<union> set b \<union> set c \<union> set d \<union> set e \<union>
      (set w1 \<union> set w2 \<union> set w3 \<union> set w4 \<union> set w5) \<union> set r"
    by (auto simp: l)
  ultimately have "CHR ''='' \<in> set ?W \<longleftrightarrow> CHR ''='' \<in> set l"
    using eq_TrimSpace [of r] unfolding cmd by simp
  with ne p have neW: "\<not> (Contains ?W ''='' \<and> \<not> HasPrefix ?W ''*'')"
    by (simp add: Contains_single)
  from nh p have nhW: "\<not> HasPrefix ?W ''#''" by simp
  from classify_enabled [OF tW nhW neW gW ncmd]
  have "classify ?W = Some (a, b, c, d, e, cmd, True)"
    by (simp add: cmd TrimSpace_idem)
  moreover from assms(2) ncmd have "CHR 0x0A \<notin> set ?W"
    unfolding W l by simp
  moreover have "length ?W \<le> length l"
  proof -
    from ws have "1 \<le> length w1" "1 \<le> length w2" "1 \<le> length w3" "1 \<le> length w4"
      "1 \<le> length w5"
      by (simp_all add: Suc_le_eq)
    moreover have "length cmd \<le> length r"
      unfolding cmd by (rule length_TrimSpace)
    ultimately show ?thesis unfolding W l by simp
  qed
  moreover have "\<not> HasSuffix ?W [CHR 0x0D]"
  proof -
    from TrimSpace_no_CR [of r] have "TrimSpace r = [] \<or> last (TrimSpace r) \<noteq> CHR 0x0D"
      by (simp add: HasSuffix_single)
    then have k: "cmd = [] \<or> last cmd \<noteq> CHR 0x0D"
      unfolding cmd .
    have "last ?W = (if cmd = [] then CHR '' '' else last cmd)"
      unfolding W by simp
    with k show ?thesis
      by (auto simp: HasSuffix_single)
  qed
  ultimately show ?thesis by blast
qed

text \<open>The lines the merge writes for the submitted entries, read back.\<close>

lemma entryText_line:
  assumes "e \<in> set S"
    and "CHR 0x0A \<notin> set (butlast (entryText e))"
    and "Enabled e \<longrightarrow>
           (\<forall>f \<in> set [Minute e, Hour e, DayOfMonth e, Month e, DayOfWeek e].
              f \<noteq> [] \<and> (\<forall>c \<in> set f. \<not> reSpace c))"
    and "\<not> Enabled e \<and> HasPrefix (RawLine e) ''#'' \<and> \<not> HasPrefix (RawLine e) ''# '' \<longrightarrow>
           \<not> HasSuffix (RawLine e) [CHR 0x0D]"
  shows "butlast (entryText e) @ [CHR 0x0A] = entryText e \<and>
         \<not> preserved S (dropCR (butlast (entryText e)))"
proof -
  consider (enabled) "Enabled e"
    | (new) "\<not> Enabled e" "RawLine e = []"
    | (mine) "\<not> Enabled e" "RawLine e \<noteq> []" "HasPrefix (RawLine e) ''# ''"
    | (comment) "\<not> Enabled e" "RawLine e \<noteq> []" "HasPrefix (RawLine e) ''#''"
        "\<not> HasPrefix (RawLine e) ''# ''"
    | (task) "\<not> Enabled e" "RawLine e \<noteq> []" "\<not> HasPrefix (RawLine e) ''#''"
    by blast
  then show ?thesis
  proof cases
    case enabled
    then have t: "entryText e = canonical e @ [CHR 0x0A]" by (simp add: entryText_cases)
    let ?fs = "[Minute e, Hour e, DayOfMonth e, Month e, DayOfWeek e]"
    define A where "A = Minute e @ '' '' @ Hour e @ '' '' @ DayOfMonth e @ '' '' @ Month e @ '' '' @
            DayOfWeek e"
    have c: "canonical e = A @ CHR '' '' # Command e"
      by (simp add: canonical_def A_def)
    have "dropCR (canonical e) = A @ CHR '' '' # dropCR (Command e)"
      unfolding c by (rule dropCR_append) simp
    then have d: "dropCR (canonical e) = written ?fs (dropCR (Command e))"
      by (simp add: written_def A_def)
    from assms(2) have "CHR 0x0A \<notin> set (canonical e)" unfolding t by simp
    then have "CHR 0x0A \<notin> set (Command e)" by (simp add: canonical_def)
    with set_dropCR [of "Command e"] have n: "CHR 0x0A \<notin> set (dropCR (Command e))" by blast
    from enabled assms(3)
    have f: "\<forall>f \<in> set ?fs. f \<noteq> [] \<and> (\<forall>c \<in> set f. \<not> reSpace c)" by simp
    have "MatchString (written ?fs (dropCR (Command e)))"
      by (rule MatchString_written [OF f n])
    with d t show ?thesis by (simp add: preserved_iff)
  next
    case new
    then have t: "entryText e = (''# '' @ canonical e) @ [CHR 0x0A]" by (simp add: entryText_cases)
    have "dropCR (''#'' @ CHR '' '' # canonical e) = ''#'' @ CHR '' '' # dropCR (canonical e)"
      by (rule dropCR_append) simp
    then have "HasPrefix (dropCR (''# '' @ canonical e)) ''# ''" by (simp add: HasPrefix_def)
    with t show ?thesis by (simp add: preserved_iff)
  next
    case mine
    then have "HasPrefix (RawLine e) ''#''" by (simp add: HasPrefix_hash_space)
    with mine have t: "entryText e = RawLine e @ [CHR 0x0A]" by (simp add: entryText_cases)
    from mine(3) obtain r where r: "RawLine e = ''#'' @ CHR '' '' # r"
      by (cases "RawLine e"; cases "tl (RawLine e)") (auto simp: HasPrefix_def)
    have "dropCR (''#'' @ CHR '' '' # r) = ''#'' @ CHR '' '' # dropCR r"
      by (rule dropCR_append) simp
    then have "HasPrefix (dropCR (RawLine e)) ''# ''" unfolding r by (simp add: HasPrefix_def)
    with t show ?thesis by (simp add: preserved_iff)
  next
    case comment
    then have t: "entryText e = RawLine e @ [CHR 0x0A]" by (simp add: entryText_cases)
    from comment assms(4) have "\<not> HasSuffix (RawLine e) [CHR 0x0D]" by blast
    then have "dropCR (RawLine e) = RawLine e" by (rule dropCR_id)
    with t assms(1) show ?thesis by (simp add: preserved_iff)
  next
    case task
    then have t: "entryText e = (''# '' @ RawLine e) @ [CHR 0x0A]" by (simp add: entryText_cases)
    have "dropCR (''#'' @ CHR '' '' # RawLine e) = ''#'' @ CHR '' '' # dropCR (RawLine e)"
      by (rule dropCR_append) simp
    then have "HasPrefix (dropCR (''# '' @ RawLine e)) ''# ''" by (simp add: HasPrefix_def)
    with t show ?thesis by (simp add: preserved_iff)
  qed
qed

lemma reconcile_again:
  assumes lines: "\<forall>L \<in> set Ls. CHR 0x0A \<notin> set L \<and> length L < MaxScanTokenSize \<and> \<not> preserved S (dropCR L)"
    and T: "\<forall>l \<in> set (scanLines T). preserved S l \<longrightarrow> \<not> HasSuffix l [CHR 0x0D]"
  shows "filter (preserved S)
           (scanLines (concat (map (\<lambda>l. l @ [CHR 0x0A]) (Ls @ filter (preserved S) (scanLines T)))))
         = filter (preserved S) (scanLines T)"
proof -
  let ?P = "filter (preserved S) (scanLines T)"
  have "\<forall>l \<in> set (Ls @ ?P). CHR 0x0A \<notin> set l \<and> length l < MaxScanTokenSize"
    using lines scanLines_lines by auto
  from scanLines_written [OF this, of "[]"]
  have "scanLines (concat (map (\<lambda>l. l @ [CHR 0x0A]) (Ls @ ?P))) = map dropCR Ls @ map dropCR ?P"
    by (simp add: scanLines_Nil)
  moreover from T have "map dropCR ?P = ?P"
    by (intro map_idI dropCR_id) simp
  moreover from lines have "filter (preserved S) (map dropCR Ls) = []"
    by (simp add: filter_empty_conv)
  ultimately show ?thesis by simp
qed


text \<open>The lines the merge writes for parsed entries, parsed again.\<close>

lemma fieldsOf_conv:
  "fieldsOf = (\<lambda>e. (Minute e, Hour e, DayOfMonth e, Month e, DayOfWeek e, Command e, Enabled e))"
  by (rule ext) (simp add: fieldsOf_def)

lemma parsed_entry_line:
  assumes "classify (RawLine e) = Some (fieldsOf e)" and "CHR 0x0A \<notin> set (RawLine e)"
    and "length (RawLine e) < MaxScanTokenSize"
    and "\<not> Enabled e \<longrightarrow> \<not> HasSuffix (RawLine e) [CHR 0x0D]"
  shows "butlast (entryText e) @ [CHR 0x0A] = entryText e \<and>
         CHR 0x0A \<notin> set (butlast (entryText e)) \<and>
         length (butlast (entryText e)) < MaxScanTokenSize \<and>
         \<not> HasSuffix (butlast (entryText e)) [CHR 0x0D] \<and>
         classify (butlast (entryText e)) = Some (fieldsOf e)"
proof (cases "Enabled e")
  case True
  let ?W = "written [Minute e, Hour e, DayOfMonth e, Month e, DayOfWeek e] (Command e)"
  from True have t: "entryText e = ?W @ [CHR 0x0A]"
    by (simp add: entryText_cases canonical_written)
  from assms(1) True
  have "classify (RawLine e)
          = Some (Minute e, Hour e, DayOfMonth e, Month e, DayOfWeek e, Command e, True)"
    by (simp add: fieldsOf_def)
  from classify_written [OF this assms(2)]
  have "classify ?W = Some (Minute e, Hour e, DayOfMonth e, Month e, DayOfWeek e, Command e, True)"
    and "CHR 0x0A \<notin> set ?W" and "length ?W \<le> length (RawLine e)"
    and "\<not> HasSuffix ?W [CHR 0x0D]"
    by blast+
  with True assms(3) show ?thesis
    unfolding t by (simp add: fieldsOf_def)
next
  case False
  with classify_SomeD [OF assms(1)] have "HasPrefix (RawLine e) ''# ''"
    by (auto simp: fieldsOf_def)
  then have "HasPrefix (RawLine e) ''#''" and "RawLine e \<noteq> []"
    using HasPrefix_hash_space [of "RawLine e"] by (auto simp: HasPrefix_def)
  with False have "entryText e = RawLine e @ [CHR 0x0A]"
    by (simp add: entryText_cases)
  with assms False show ?thesis by simp
qed

text \<open>A line that Step 2 preserves is not a task line when it is read back.\<close>

lemma fieldThenSpace_snoc:
  assumes "fieldThenSpace s = Some (f, r)" and "reSpace c"
  shows "fieldThenSpace (s @ [c]) = Some (f, if r = [] then [] else r @ [c])"
proof -
  let ?p = "\<lambda>c. \<not> reSpace c"
  let ?d = "dropWhile ?p s"
  from assms(1) have f: "f = takeWhile ?p s" and ne: "f \<noteq> []" and d: "?d \<noteq> []"
    and r: "r = dropWhile reSpace ?d"
    by (auto simp: fieldThenSpace_def Let_def split: if_splits)
  from d obtain x where x: "x \<in> set s" "\<not> ?p x"
    by (metis dropWhile_eq_Nil_conv)
  then have t: "takeWhile ?p (s @ [c]) = takeWhile ?p s"
    and e: "dropWhile ?p (s @ [c]) = ?d @ [c]"
    by (simp_all add: takeWhile_append1 dropWhile_append1)
  have w: "dropWhile reSpace (?d @ [c]) = (if r = [] then [] else r @ [c])"
  proof (cases "r = []")
    case True
    with r have "dropWhile reSpace ?d = []" by simp
    then have "\<forall>y \<in> set ?d. reSpace y" by (simp only: dropWhile_eq_Nil_conv)
    then have "dropWhile reSpace (?d @ [c]) = dropWhile reSpace [c]"
      by (intro dropWhile_append2) blast
    also from assms(2) have "\<dots> = []" by simp
    finally have z: "dropWhile reSpace (?d @ [c]) = []" .
    from True have i: "(if r = [] then [] else r @ [c]) = []" by (rule if_P)
    show ?thesis by (rule trans [OF z i [symmetric]])
  next
    case False
    with r have "dropWhile reSpace ?d \<noteq> []" by simp
    then have "\<not> (\<forall>y \<in> set ?d. reSpace y)" unfolding dropWhile_eq_Nil_conv .
    then obtain y where "y \<in> set ?d" "\<not> reSpace y" by blast
    then have "dropWhile reSpace (?d @ [c]) = dropWhile reSpace ?d @ [c]"
      by (rule dropWhile_append1)
    then have z: "dropWhile reSpace (?d @ [c]) = r @ [c]" by (simp only: r)
    from False have i: "(if r = [] then [] else r @ [c]) = r @ [c]" by (rule if_not_P)
    show ?thesis by (rule trans [OF z i [symmetric]])
  qed
  have "fieldThenSpace (s @ [c]) =
          (let f = takeWhile ?p (s @ [c]); r = dropWhile ?p (s @ [c])
           in if f = [] \<or> r = [] then None else Some (f, dropWhile reSpace r))"
    by (rule fieldThenSpace_def)
  also have "\<dots> = (if f = [] \<or> ?d @ [c] = [] then None else Some (f, dropWhile reSpace (?d @ [c])))"
    by (simp only: Let_def t e f)
  also from ne have "\<dots> = Some (f, dropWhile reSpace (?d @ [c]))" by simp
  finally show ?thesis by (simp only: w)
qed

lemma groups_snoc:
  assumes "reSpace c"
  shows "groups k s = Some (fs, r) \<Longrightarrow> \<exists>r'. groups k (s @ [c]) = Some (fs, r') \<and> set r' \<subseteq> insert c (set r)"
proof (induction k arbitrary: s fs)
  case 0
  then show ?case by auto
next
  case (Suc k)
  from Suc.prems obtain f s' fs' where a: "fieldThenSpace s = Some (f, s')"
    and b: "groups k s' = Some (fs', r)" and fs: "fs = f # fs'"
    by (auto split: option.splits)
  show ?case
  proof (cases "s' = []")
    case True
    with b have "k = 0" "fs' = []" "r = []"
      by (cases k; simp add: fieldThenSpace_def)+
    with True fieldThenSpace_snoc [OF a assms] fs show ?thesis by simp
  next
    case False
    from Suc.IH [OF b] obtain r' where "groups k (s' @ [c]) = Some (fs', r')"
      and "set r' \<subseteq> insert c (set r)" by blast
    with False fieldThenSpace_snoc [OF a assms] fs show ?thesis by simp
  qed
qed

lemma MatchString_snoc: "MatchString l \<Longrightarrow> MatchString (l @ [CHR 0x0D])"
proof -
  assume "MatchString l"
  then obtain fs r where g: "groups 5 l = Some (fs, r)" and n: "CHR 0x0A \<notin> set r"
    by (auto simp: MatchString_def FindStringSubmatch_def split: option.splits if_splits)
  have "reSpace (CHR 0x0D)" by (simp add: reSpace_def)
  from groups_snoc [OF this g] obtain r' where "groups 5 (l @ [CHR 0x0D]) = Some (fs, r')"
    and "set r' \<subseteq> insert (CHR 0x0D) (set r)" by blast
  with n show ?thesis
    by (auto simp: MatchString_def FindStringSubmatch_def)
qed

lemma dropCR_cases: "dropCR l = l \<or> l = dropCR l @ [CHR 0x0D]"
  by (cases l rule: rev_cases) (auto simp: dropCR_def)

lemma preserved_dropCR:
  assumes "preserved S l"
  shows "classify (dropCR l) = None"
proof -
  from assms have m: "\<not> MatchString l" and p: "\<not> HasPrefix l ''# ''"
    by (simp_all add: preserved_iff)
  from dropCR_cases [of l] m MatchString_snoc [of "dropCR l"]
  have "\<not> MatchString (dropCR l)" by auto
  moreover have "\<not> HasPrefix (dropCR l) ''# ''"
  proof (cases "dropCR l = l")
    case True
    with p show ?thesis by simp
  next
    case False
    with dropCR_cases [of l] obtain a where l: "l = a @ [CHR 0x0D]" and a: "dropCR l = a"
      by auto
    from p show ?thesis unfolding a unfolding l by (auto simp: HasPrefix_def)
  qed
  ultimately show ?thesis by (rule classify_None)
qed


section \<open>The claims\<close>

text \<open>
  C1. When a submitted enabled entry is an edit of an existing entry, the first
  loop writes its new canonical line, and the second loop does not keep the old line: a
  store line equal to the \<open>RawLine\<close> of a submitted entry is found in the submitted list
  (\<^verbatim>\<open>entry.RawLine == line\<close>) and is never among the preserved lines, so the edit
  leaves no copy of the old line behind the submitted ones.
\<close>

theorem edited_entry_old_line_dropped:
  assumes "e \<in> set es" and "Enabled e"
  shows "entryText e = canonical e @ [CHR 0x0A] \<and>
         reconcile es T =
           concat (map entryText es) @
           concat (map (\<lambda>l. l @ [CHR 0x0A]) (filter (preserved es) (scanLines T))) \<and>
         RawLine e \<notin> set (filter (preserved es) (scanLines T))"
  using assms by (simp add: entryText_cases reconcile_eq preserved_RawLine)

theorem edited_entry_old_line_dropped_witness:
  "fooEntry 1\<lparr>Command := ''/usr/bin/bar''\<rparr> \<in> set [fooEntry 1\<lparr>Command := ''/usr/bin/bar''\<rparr>] \<and>
   Enabled (fooEntry 1\<lparr>Command := ''/usr/bin/bar''\<rparr>) \<and>
   RawLine (fooEntry 1\<lparr>Command := ''/usr/bin/bar''\<rparr>) \<in> set (scanLines fooStore) \<and>
   entryText (fooEntry 1\<lparr>Command := ''/usr/bin/bar''\<rparr>) = ''*/5 * * * * /usr/bin/bar\<newline>'' \<and>
   RawLine (fooEntry 1\<lparr>Command := ''/usr/bin/bar''\<rparr>)
     \<notin> set (filter (preserved [fooEntry 1\<lparr>Command := ''/usr/bin/bar''\<rparr>]) (scanLines fooStore))"
  using edited_entry_old_line_dropped
          [of "fooEntry 1\<lparr>Command := ''/usr/bin/bar''\<rparr>" "[fooEntry 1\<lparr>Command := ''/usr/bin/bar''\<rparr>]" fooStore]
  by (simp add: fooEntry_def canonical_def scanLines_fooStore)

theorem edited_entry_counterexample:
  "scanLines fooStore = [RawLine (fooEntry 1\<lparr>Command := ''/usr/bin/bar''\<rparr>)] \<and>
   canonical (fooEntry 1\<lparr>Command := ''/usr/bin/bar''\<rparr>)
     \<noteq> RawLine (fooEntry 1\<lparr>Command := ''/usr/bin/bar''\<rparr>) \<and>
   reconcile [fooEntry 1\<lparr>Command := ''/usr/bin/bar''\<rparr>] fooStore = ''*/5 * * * * /usr/bin/bar\<newline>''"
proof -
  have "reconcile [fooEntry 1\<lparr>Command := ''/usr/bin/bar''\<rparr>] fooStore
          = mergeLoop [fooEntry 1\<lparr>Command := ''/usr/bin/bar''\<rparr>] [''*/5 * * * * /usr/bin/foo'']
              (fst (emitLoop [fooEntry 1\<lparr>Command := ''/usr/bin/bar''\<rparr>] ([], Map.empty)))"
    by (simp add: reconcile_def scanLines_fooStore)
  also have "\<dots> = ''*/5 * * * * /usr/bin/bar\<newline>''"
    by code_simp
  finally show ?thesis
    by (simp add: scanLines_fooStore fooEntry_def canonical_def)
qed

text \<open>
  C2. At the store text \<^verbatim>\<open># some note\<close> with no submitted entry the merge writes
  nothing. The line is read, does not match the six-group pattern and is the \<open>RawLine\<close>
  of no submitted entry; the second loop still drops it, because line 250 keeps a blank or
  comment line only when it does not start with \<^verbatim>\<open>"# "\<close>. The comments of the program
  (lines 206, 227 and 251) say that comments the editor did not write are kept.
\<close>

theorem foreign_comment_dropped:
  "scanLines ''# some note\<newline>'' = [''# some note''] \<and>
   \<not> MatchString ''# some note'' \<and>
   ''# some note'' \<notin> RawLine ` set [] \<and>
   reconcile [] ''# some note\<newline>'' = []"
proof -
  have l: "scanLines ''# some note\<newline>'' = [''# some note'']"
    by (simp add: scanLines.simps MaxScanTokenSize_def dropCR_def)
  have m: "\<not> MatchString ''# some note''"
    by code_simp
  have "mergeLoop [] [''# some note''] (fst (emitLoop [] ([], Map.empty))) = []"
    by code_simp
  with l m show ?thesis by (simp add: reconcile_def)
qed

text \<open>
  C3. For a submitted entry that is disabled and whose \<open>RawLine\<close> is not empty and does
  not start with \<open>#\<close>, the merge writes exactly \<^verbatim>\<open>"# "\<close>, the \<open>RawLine\<close> and a line
  feed, whatever the entry's fields are, at the entry's place among the submitted
  entries. Disabling the one entry parsed from the store text
  \<^verbatim>\<open>*/5 * * * * /usr/bin/foo\<close> gives the text \<^verbatim>\<open># */5 * * * * /usr/bin/foo\<close> and a
  line feed.
\<close>

theorem disable_prefixes_raw_line:
  assumes "\<not> Enabled e" and "RawLine e \<noteq> []" and "\<not> HasPrefix (RawLine e) ''#''"
  shows "entryText e = ''# '' @ RawLine e @ [CHR 0x0A] \<and>
         reconcile (es1 @ e # es2) T =
           concat (map entryText es1) @ (''# '' @ RawLine e @ [CHR 0x0A]) @
           concat (map entryText es2) @
           concat (map (\<lambda>l. l @ [CHR 0x0A]) (filter (preserved (es1 @ e # es2)) (scanLines T))) \<and>
         reconcile (map (\<lambda>x. x\<lparr>Enabled := False\<rparr>) (fst (parseCrontabOutput n fooStore))) fooStore
           = ''# */5 * * * * /usr/bin/foo\<newline>''"
proof -
  have t: "entryText e = ''# '' @ RawLine e @ [CHR 0x0A]"
    using assms by (simp add: entryText_cases)
  have "reconcile [fooEntry n\<lparr>Enabled := False\<rparr>] fooStore
          = entryText (fooEntry n\<lparr>Enabled := False\<rparr>) @
            concat (map (\<lambda>l. l @ [CHR 0x0A])
              (filter (preserved [fooEntry n\<lparr>Enabled := False\<rparr>]) [''*/5 * * * * /usr/bin/foo'']))"
    by (simp add: reconcile_eq scanLines_fooStore)
  moreover have "entryText (fooEntry n\<lparr>Enabled := False\<rparr>) = ''# */5 * * * * /usr/bin/foo\<newline>''"
    by (simp add: entryText_cases fooEntry_def HasPrefix_def)
  moreover have "\<not> preserved [fooEntry n\<lparr>Enabled := False\<rparr>] ''*/5 * * * * /usr/bin/foo''"
    by (simp add: preserved_iff fooEntry_def)
  ultimately have "reconcile [fooEntry n\<lparr>Enabled := False\<rparr>] fooStore = ''# */5 * * * * /usr/bin/foo\<newline>''"
    by simp
  with t show ?thesis
    by (simp add: reconcile_middle parse_fooStore)
qed

theorem disable_prefixes_raw_line_witness:
  "\<not> Enabled (fooEntry 1\<lparr>Enabled := False\<rparr>) \<and>
   RawLine (fooEntry 1\<lparr>Enabled := False\<rparr>) \<noteq> [] \<and>
   \<not> HasPrefix (RawLine (fooEntry 1\<lparr>Enabled := False\<rparr>)) ''#'' \<and>
   entryText (fooEntry 1\<lparr>Enabled := False\<rparr>) = ''# */5 * * * * /usr/bin/foo\<newline>'' \<and>
   reconcile (map (\<lambda>x. x\<lparr>Enabled := False\<rparr>) (fst (parseCrontabOutput 1 fooStore))) fooStore
     = ''# */5 * * * * /usr/bin/foo\<newline>''"
  using disable_prefixes_raw_line [of "fooEntry 1\<lparr>Enabled := False\<rparr>" "[]" "[]" fooStore 1]
  by (simp add: fooEntry_def HasPrefix_def)

text \<open>
  C4. The output of the merge is the text of the submitted entries, in the order of
  submission, followed by the preserved lines of the fresh store text, in the order of the
  store (\<open>filter\<close> keeps the order of the lines read).
\<close>

theorem reconcile_steps_in_order:
  "reconcile es T =
     concat (map entryText es) @
     concat (map (\<lambda>l. l @ [CHR 0x0A]) (filter (preserved es) (scanLines T)))"
  by (rule reconcile_eq)

theorem reconcile_steps_in_order_witness:
  "reconcile [backupEntry 7, fooEntry 1\<lparr>Enabled := False\<rparr>]
     ''MAILTO=root\<newline>*/5 * * * * /usr/bin/foo\<newline>#note\<newline>''
   = ''0 3 * * * /bin/backup.sh\<newline># */5 * * * * /usr/bin/foo\<newline>MAILTO=root\<newline>#note\<newline>''"
proof -
  let ?es = "[backupEntry 7, fooEntry 1\<lparr>Enabled := False\<rparr>]"
  let ?T = "''MAILTO=root\<newline>*/5 * * * * /usr/bin/foo\<newline>#note\<newline>''"
  have l: "scanLines ?T = [''MAILTO=root'', ''*/5 * * * * /usr/bin/foo'', ''#note'']"
    by (simp add: scanLines.simps MaxScanTokenSize_def dropCR_def)
  have a: "concat (map entryText ?es)
             = ''0 3 * * * /bin/backup.sh\<newline># */5 * * * * /usr/bin/foo\<newline>''"
    by code_simp
  have b: "filter (preserved ?es) [''MAILTO=root'', ''*/5 * * * * /usr/bin/foo'', ''#note'']
             = [''MAILTO=root'', ''#note'']"
    by code_simp
  show ?thesis
    using reconcile_steps_in_order [of ?es ?T] unfolding l a b by simp
qed

text \<open>
  C5. The merge is idempotent in its text argument when every line is read back as it
  was written: merging the same entries with the output of the merge gives that output
  again, provided that
  \<^item> no line that Step 2 preserves from the store text ends with a carriage return (the
    scanner removes one carriage return from the end of each line it reads);
  \<^item> the line written for each submitted entry holds no line feed before its final one,
    and is at most 65536 bytes long with its line feed (the scanner stops at a longer
    line);
  \<^item> the five schedule fields of each enabled entry are not empty and hold no white space
    of the pattern (tab, line feed, form feed, carriage return, space);
  \<^item> the \<open>RawLine\<close> of a disabled entry that starts with \<open>#\<close> but not with
    \<^verbatim>\<open>"# "\<close> does not end with a carriage return.

  Each condition is needed: the counterexample breaks them one at a time.
\<close>

theorem reconcile_idempotent:
  assumes "\<forall>l \<in> set (scanLines T). preserved S l \<longrightarrow> \<not> HasSuffix l [CHR 0x0D]"
    and "\<forall>e \<in> set S. CHR 0x0A \<notin> set (butlast (entryText e)) \<and>
                      length (entryText e) \<le> MaxScanTokenSize"
    and "\<forall>e \<in> set S. Enabled e \<longrightarrow>
           (\<forall>f \<in> set [Minute e, Hour e, DayOfMonth e, Month e, DayOfWeek e].
              f \<noteq> [] \<and> (\<forall>c \<in> set f. \<not> reSpace c))"
    and "\<forall>e \<in> set S.
           \<not> Enabled e \<and> HasPrefix (RawLine e) ''#'' \<and> \<not> HasPrefix (RawLine e) ''# '' \<longrightarrow>
           \<not> HasSuffix (RawLine e) [CHR 0x0D]"
  shows "reconcile S (reconcile S T) = reconcile S T"
proof -
  let ?Ls = "map (\<lambda>e. butlast (entryText e)) S"
  let ?P = "filter (preserved S) (scanLines T)"
  have e: "\<forall>e \<in> set S. butlast (entryText e) @ [CHR 0x0A] = entryText e \<and>
         \<not> preserved S (dropCR (butlast (entryText e)))"
  proof
    fix x assume x: "x \<in> set S"
    with assms(2) have "CHR 0x0A \<notin> set (butlast (entryText x))" by blast
    moreover from x assms(3) have "Enabled x \<longrightarrow>
           (\<forall>f \<in> set [Minute x, Hour x, DayOfMonth x, Month x, DayOfWeek x].
              f \<noteq> [] \<and> (\<forall>c \<in> set f. \<not> reSpace c))"
      by blast
    moreover from x assms(4)
    have "\<not> Enabled x \<and> HasPrefix (RawLine x) ''#'' \<and> \<not> HasPrefix (RawLine x) ''# '' \<longrightarrow>
           \<not> HasSuffix (RawLine x) [CHR 0x0D]"
      by blast
    ultimately show "butlast (entryText x) @ [CHR 0x0A] = entryText x \<and>
         \<not> preserved S (dropCR (butlast (entryText x)))"
      using x by (intro entryText_line)
  qed
  have m: "map entryText S = map (\<lambda>l. l @ [CHR 0x0A]) ?Ls"
    by (simp add: e cong: map_cong)
  have r: "reconcile S T = concat (map (\<lambda>l. l @ [CHR 0x0A]) (?Ls @ ?P))"
    unfolding reconcile_eq m by simp
  have "\<forall>L \<in> set ?Ls. CHR 0x0A \<notin> set L \<and> length L < MaxScanTokenSize \<and> \<not> preserved S (dropCR L)"
  proof
    fix L assume "L \<in> set ?Ls"
    then obtain x where x: "x \<in> set S" "L = butlast (entryText x)" by auto
    with e have "L @ [CHR 0x0A] = entryText x" by simp
    then have "length (entryText x) = Suc (length L)" by (metis length_append_singleton)
    with assms(2) x(1) have "length L < MaxScanTokenSize" by auto
    moreover from assms(2) x have "CHR 0x0A \<notin> set L" by blast
    ultimately show "CHR 0x0A \<notin> set L \<and> length L < MaxScanTokenSize \<and> \<not> preserved S (dropCR L)"
      using e x by simp
  qed
  from reconcile_again [OF this assms(1)]
  have "filter (preserved S) (scanLines (reconcile S T)) = ?P"
    unfolding r .
  then show ?thesis
    using reconcile_eq [of S "reconcile S T"] reconcile_eq [of S T] by simp
qed

theorem reconcile_idempotent_witness:
  "reconcile [backupEntry 2, fooEntry 1\<lparr>Enabled := False\<rparr>]
     (''MAILTO=root\<newline>*/5 * * * * /usr/bin/foo\<newline>#note\<newline># old'' @ [CHR 0x0D, CHR 0x0D, CHR 0x0A])
   = ''0 3 * * * /bin/backup.sh\<newline># */5 * * * * /usr/bin/foo\<newline>MAILTO=root\<newline>#note\<newline>'' \<and>
   reconcile [backupEntry 2, fooEntry 1\<lparr>Enabled := False\<rparr>]
     (reconcile [backupEntry 2, fooEntry 1\<lparr>Enabled := False\<rparr>]
        (''MAILTO=root\<newline>*/5 * * * * /usr/bin/foo\<newline>#note\<newline># old'' @ [CHR 0x0D, CHR 0x0D, CHR 0x0A]))
   = ''0 3 * * * /bin/backup.sh\<newline># */5 * * * * /usr/bin/foo\<newline>MAILTO=root\<newline>#note\<newline>''"
proof -
  let ?S = "[backupEntry 2, fooEntry 1\<lparr>Enabled := False\<rparr>]"
  let ?T = "''MAILTO=root\<newline>*/5 * * * * /usr/bin/foo\<newline>#note\<newline># old'' @ [CHR 0x0D, CHR 0x0D, CHR 0x0A]"
  have l: "scanLines ?T
             = [''MAILTO=root'', ''*/5 * * * * /usr/bin/foo'', ''#note'', ''# old'' @ [CHR 0x0D]]"
    by (simp add: scanLines.simps MaxScanTokenSize_def dropCR_def)
  have h1: "\<forall>l \<in> set (scanLines ?T). preserved ?S l \<longrightarrow> \<not> HasSuffix l [CHR 0x0D]"
    unfolding l by (simp add: HasSuffix_def preserved_iff HasPrefix_def)
  have h2: "\<forall>e \<in> set ?S. CHR 0x0A \<notin> set (butlast (entryText e)) \<and>
                      length (entryText e) \<le> MaxScanTokenSize"
    by (simp add: backupEntry_def fooEntry_def canonical_def entryText_cases HasPrefix_def
        MaxScanTokenSize_def)
  have h3: "\<forall>e \<in> set ?S. Enabled e \<longrightarrow>
           (\<forall>f \<in> set [Minute e, Hour e, DayOfMonth e, Month e, DayOfWeek e].
              f \<noteq> [] \<and> (\<forall>c \<in> set f. \<not> reSpace c))"
    by (simp add: backupEntry_def fooEntry_def reSpace_def)
  have h4: "\<forall>e \<in> set ?S.
           \<not> Enabled e \<and> HasPrefix (RawLine e) ''#'' \<and> \<not> HasPrefix (RawLine e) ''# '' \<longrightarrow>
           \<not> HasSuffix (RawLine e) [CHR 0x0D]"
    by (simp add: backupEntry_def fooEntry_def HasPrefix_def)
  have a: "concat (map entryText ?S)
             = ''0 3 * * * /bin/backup.sh\<newline># */5 * * * * /usr/bin/foo\<newline>''"
    by code_simp
  have b: "filter (preserved ?S)
             [''MAILTO=root'', ''*/5 * * * * /usr/bin/foo'', ''#note'', ''# old'' @ [CHR 0x0D]]
             = [''MAILTO=root'', ''#note'']"
    by code_simp
  have v: "reconcile ?S ?T
      = ''0 3 * * * /bin/backup.sh\<newline># */5 * * * * /usr/bin/foo\<newline>MAILTO=root\<newline>#note\<newline>''"
    unfolding reconcile_eq l a b by simp
  from reconcile_idempotent [OF h1 h2 h3 h4] v show ?thesis by simp
qed

theorem reconcile_idempotent_counterexample:
  "reconcile [] [CHR ''x'', CHR 0x0D, CHR 0x0D] = [CHR ''x'', CHR 0x0D, CHR 0x0A] \<and>
   reconcile [] [CHR ''x'', CHR 0x0D, CHR 0x0A] = [CHR ''x'', CHR 0x0A] \<and>
   reconcile [backupEntry 1\<lparr>Minute := []\<rparr>] [] = '' 3 * * * /bin/backup.sh\<newline>'' \<and>
   reconcile [backupEntry 1\<lparr>Minute := []\<rparr>] '' 3 * * * /bin/backup.sh\<newline>''
     = '' 3 * * * /bin/backup.sh\<newline> 3 * * * /bin/backup.sh\<newline>'' \<and>
   reconcile [backupEntry 1\<lparr>Hour := '' ''\<rparr>] [] = ''0   * * * /bin/backup.sh\<newline>'' \<and>
   reconcile [backupEntry 1\<lparr>Hour := '' ''\<rparr>] ''0   * * * /bin/backup.sh\<newline>''
     = ''0   * * * /bin/backup.sh\<newline>0   * * * /bin/backup.sh\<newline>'' \<and>
   reconcile [backupEntry 1\<lparr>Command := ''a\<newline>b''\<rparr>] [] = ''0 3 * * * a\<newline>b\<newline>'' \<and>
   reconcile [backupEntry 1\<lparr>Command := ''a\<newline>b''\<rparr>] ''0 3 * * * a\<newline>b\<newline>''
     = ''0 3 * * * a\<newline>b\<newline>b\<newline>'' \<and>
   reconcile [backupEntry 1\<lparr>RawLine := [CHR ''#'', CHR ''x'', CHR 0x0D], Enabled := False\<rparr>] []
     = [CHR ''#'', CHR ''x'', CHR 0x0D, CHR 0x0A] \<and>
   reconcile [backupEntry 1\<lparr>RawLine := [CHR ''#'', CHR ''x'', CHR 0x0D], Enabled := False\<rparr>]
       [CHR ''#'', CHR ''x'', CHR 0x0D, CHR 0x0A]
     = [CHR ''#'', CHR ''x'', CHR 0x0D, CHR 0x0A, CHR ''#'', CHR ''x'', CHR 0x0A] \<and>
   reconcile [backupEntry 1\<lparr>Command := replicate MaxScanTokenSize CHR ''x''\<rparr>] ''FOO=bar\<newline>''
     = ''0 3 * * * '' @ replicate MaxScanTokenSize CHR ''x'' @ ''\<newline>FOO=bar\<newline>'' \<and>
   reconcile [backupEntry 1\<lparr>Command := replicate MaxScanTokenSize CHR ''x''\<rparr>]
       (''0 3 * * * '' @ replicate MaxScanTokenSize CHR ''x'' @ ''\<newline>FOO=bar\<newline>'')
     = ''0 3 * * * '' @ replicate MaxScanTokenSize CHR ''x'' @ ''\<newline>''"
proof -
  let ?c = "backupEntry 1\<lparr>RawLine := [CHR ''#'', CHR ''x'', CHR 0x0D], Enabled := False\<rparr>"
  let ?g = "backupEntry 1\<lparr>Command := replicate MaxScanTokenSize CHR ''x''\<rparr>"
  have l: "scanLines [CHR ''x'', CHR 0x0D, CHR 0x0D] = [[CHR ''x'', CHR 0x0D]]"
    "scanLines [CHR ''x'', CHR 0x0D, CHR 0x0A] = [[CHR ''x'']]"
    "scanLines [] = []"
    "scanLines '' 3 * * * /bin/backup.sh\<newline>'' = ['' 3 * * * /bin/backup.sh'']"
    "scanLines ''0   * * * /bin/backup.sh\<newline>'' = [''0   * * * /bin/backup.sh'']"
    "scanLines ''0 3 * * * a\<newline>b\<newline>'' = [''0 3 * * * a'', ''b'']"
    "scanLines [CHR ''#'', CHR ''x'', CHR 0x0D, CHR 0x0A] = [[CHR ''#'', CHR ''x'']]"
    "scanLines ''FOO=bar\<newline>'' = [''FOO=bar'']"
    by (simp_all add: scanLines.simps MaxScanTokenSize_def dropCR_def)
  have 1: "mergeLoop [] [[CHR ''x'', CHR 0x0D]] (fst (emitLoop [] ([], Map.empty)))
          = [CHR ''x'', CHR 0x0D, CHR 0x0A]"
    and 2: "mergeLoop [] [[CHR ''x'']] (fst (emitLoop [] ([], Map.empty))) = [CHR ''x'', CHR 0x0A]"
    and 3: "mergeLoop [backupEntry 1\<lparr>Minute := []\<rparr>] []
           (fst (emitLoop [backupEntry 1\<lparr>Minute := []\<rparr>] ([], Map.empty)))
          = '' 3 * * * /bin/backup.sh\<newline>''"
    and 4: "mergeLoop [backupEntry 1\<lparr>Minute := []\<rparr>] ['' 3 * * * /bin/backup.sh'']
           (fst (emitLoop [backupEntry 1\<lparr>Minute := []\<rparr>] ([], Map.empty)))
          = '' 3 * * * /bin/backup.sh\<newline> 3 * * * /bin/backup.sh\<newline>''"
    and 5: "mergeLoop [backupEntry 1\<lparr>Hour := '' ''\<rparr>] []
           (fst (emitLoop [backupEntry 1\<lparr>Hour := '' ''\<rparr>] ([], Map.empty)))
          = ''0   * * * /bin/backup.sh\<newline>''"
    and 6: "mergeLoop [backupEntry 1\<lparr>Hour := '' ''\<rparr>] [''0   * * * /bin/backup.sh'']
           (fst (emitLoop [backupEntry 1\<lparr>Hour := '' ''\<rparr>] ([], Map.empty)))
          = ''0   * * * /bin/backup.sh\<newline>0   * * * /bin/backup.sh\<newline>''"
    and 7: "mergeLoop [backupEntry 1\<lparr>Command := ''a\<newline>b''\<rparr>] []
           (fst (emitLoop [backupEntry 1\<lparr>Command := ''a\<newline>b''\<rparr>] ([], Map.empty)))
          = ''0 3 * * * a\<newline>b\<newline>''"
    and 8: "mergeLoop [backupEntry 1\<lparr>Command := ''a\<newline>b''\<rparr>] [''0 3 * * * a'', ''b'']
           (fst (emitLoop [backupEntry 1\<lparr>Command := ''a\<newline>b''\<rparr>] ([], Map.empty)))
          = ''0 3 * * * a\<newline>b\<newline>b\<newline>''"
    and 9: "mergeLoop [?c] [] (fst (emitLoop [?c] ([], Map.empty)))
          = [CHR ''#'', CHR ''x'', CHR 0x0D, CHR 0x0A]"
    and 10: "mergeLoop [?c] [[CHR ''#'', CHR ''x'']] (fst (emitLoop [?c] ([], Map.empty)))
          = [CHR ''#'', CHR ''x'', CHR 0x0D, CHR 0x0A, CHR ''#'', CHR ''x'', CHR 0x0A]"
    by code_simp+
  have t: "entryText ?g = ''0 3 * * * '' @ replicate MaxScanTokenSize CHR ''x'' @ ''\<newline>''"
    by (simp add: entryText_cases backupEntry_def canonical_def)
  have "\<not> MatchString ''FOO=bar''" by code_simp
  then have p: "preserved [?g] ''FOO=bar''"
    by (simp add: preserved_iff backupEntry_def HasPrefix_def)
  have 11: "reconcile [?g] ''FOO=bar\<newline>''
     = ''0 3 * * * '' @ replicate MaxScanTokenSize CHR ''x'' @ ''\<newline>FOO=bar\<newline>''"
    unfolding reconcile_eq l using p by (simp add: t)
  have "scanLines ((''0 3 * * * '' @ replicate MaxScanTokenSize CHR ''x'') @ CHR 0x0A # ''FOO=bar\<newline>'') = []"
    by (rule scanLines_too_long) simp_all
  then have s: "scanLines (''0 3 * * * '' @ replicate MaxScanTokenSize CHR ''x'' @ ''\<newline>FOO=bar\<newline>'') = []"
    by simp
  have 12: "reconcile [?g] (''0 3 * * * '' @ replicate MaxScanTokenSize CHR ''x'' @ ''\<newline>FOO=bar\<newline>'')
     = ''0 3 * * * '' @ replicate MaxScanTokenSize CHR ''x'' @ ''\<newline>''"
    unfolding reconcile_eq s by (simp add: t)
  have "reconcile [] [CHR ''x'', CHR 0x0D, CHR 0x0D] = [CHR ''x'', CHR 0x0D, CHR 0x0A]"
    and "reconcile [] [CHR ''x'', CHR 0x0D, CHR 0x0A] = [CHR ''x'', CHR 0x0A]"
    and "reconcile [backupEntry 1\<lparr>Minute := []\<rparr>] [] = '' 3 * * * /bin/backup.sh\<newline>''"
    and "reconcile [backupEntry 1\<lparr>Minute := []\<rparr>] '' 3 * * * /bin/backup.sh\<newline>''
     = '' 3 * * * /bin/backup.sh\<newline> 3 * * * /bin/backup.sh\<newline>''"
    and "reconcile [backupEntry 1\<lparr>Hour := '' ''\<rparr>] [] = ''0   * * * /bin/backup.sh\<newline>''"
    and "reconcile [backupEntry 1\<lparr>Hour := '' ''\<rparr>] ''0   * * * /bin/backup.sh\<newline>''
     = ''0   * * * /bin/backup.sh\<newline>0   * * * /bin/backup.sh\<newline>''"
    and "reconcile [backupEntry 1\<lparr>Command := ''a\<newline>b''\<rparr>] [] = ''0 3 * * * a\<newline>b\<newline>''"
    and "reconcile [backupEntry 1\<lparr>Command := ''a\<newline>b''\<rparr>] ''0 3 * * * a\<newline>b\<newline>''
     = ''0 3 * * * a\<newline>b\<newline>b\<newline>''"
    and "reconcile [?c] [] = [CHR ''#'', CHR ''x'', CHR 0x0D, CHR 0x0A]"
    and "reconcile [?c] [CHR ''#'', CHR ''x'', CHR 0x0D, CHR 0x0A]
     = [CHR ''#'', CHR ''x'', CHR 0x0D, CHR 0x0A, CHR ''#'', CHR ''x'', CHR 0x0A]"
    unfolding reconcile_def l by (rule 1 2 3 4 5 6 7 8 9 10)+
  with 11 12 show ?thesis by (simp only: simp_thms)
qed

text \<open>
  C6. Round trip: when the \<open>RawLine\<close> of no disabled entry parsed from the store text
  ends with a carriage return (no commented-out task line of the store ends with one,
  after the scanner has removed one), parsing the text that the merge produces from the
  parsed entries and the same store text gives entries with the same schedule fields,
  command and enabled flag, in the same order, whatever the values of the counter.
\<close>

theorem parse_reconcile_roundtrip:
  assumes "\<forall>e \<in> set (fst (parseCrontabOutput n T)).
             \<not> Enabled e \<longrightarrow> \<not> HasSuffix (RawLine e) [CHR 0x0D]"
  shows "map (\<lambda>e. (Minute e, Hour e, DayOfMonth e, Month e, DayOfWeek e, Command e, Enabled e))
           (fst (parseCrontabOutput n' (reconcile (fst (parseCrontabOutput n T)) T)))
         = map (\<lambda>e. (Minute e, Hour e, DayOfMonth e, Month e, DayOfWeek e, Command e, Enabled e))
             (fst (parseCrontabOutput n T))"
proof -
  let ?E = "fst (parseCrontabOutput n T)"
  let ?Ls = "map (\<lambda>e. butlast (entryText e)) ?E"
  let ?P = "filter (preserved ?E) (scanLines T)"
  have E: "\<forall>e \<in> set ?E.
         butlast (entryText e) @ [CHR 0x0A] = entryText e \<and>
         CHR 0x0A \<notin> set (butlast (entryText e)) \<and>
         length (butlast (entryText e)) < MaxScanTokenSize \<and>
         \<not> HasSuffix (butlast (entryText e)) [CHR 0x0D] \<and>
         classify (butlast (entryText e)) = Some (fieldsOf e)"
  proof
    fix e assume e: "e \<in> set ?E"
    with parseLoop_entry [of e "scanLines T" "([], n)"]
    have l: "RawLine e \<in> set (scanLines T)" and c: "classify (RawLine e) = Some (fieldsOf e)"
      by (simp_all add: parseCrontabOutput_def)
    from l scanLines_lines have "CHR 0x0A \<notin> set (RawLine e)" "length (RawLine e) < MaxScanTokenSize"
      by blast+
    moreover from e assms have "\<not> Enabled e \<longrightarrow> \<not> HasSuffix (RawLine e) [CHR 0x0D]" by blast
    ultimately show "butlast (entryText e) @ [CHR 0x0A] = entryText e \<and>
         CHR 0x0A \<notin> set (butlast (entryText e)) \<and>
         length (butlast (entryText e)) < MaxScanTokenSize \<and>
         \<not> HasSuffix (butlast (entryText e)) [CHR 0x0D] \<and>
         classify (butlast (entryText e)) = Some (fieldsOf e)"
      using c by (intro parsed_entry_line)
  qed
  have m: "map entryText ?E = map (\<lambda>l. l @ [CHR 0x0A]) ?Ls"
    by (simp add: E cong: map_cong)
  have r: "reconcile ?E T = concat (map (\<lambda>l. l @ [CHR 0x0A]) (?Ls @ ?P))"
    unfolding reconcile_eq m by simp
  have good: "\<forall>l \<in> set (?Ls @ ?P). CHR 0x0A \<notin> set l \<and> length l < MaxScanTokenSize"
    using E scanLines_lines by auto
  have nocr: "\<forall>l \<in> set ?Ls. \<not> HasSuffix l [CHR 0x0D]"
    using E by auto
  from scanLines_written [OF good, of "[]"]
  have "scanLines (reconcile ?E T) = map dropCR ?Ls @ map dropCR ?P"
    unfolding r by (simp add: scanLines_Nil)
  also from nocr have "map dropCR ?Ls = ?Ls"
    by (intro map_idI dropCR_id) blast
  finally have sl: "scanLines (reconcile ?E T) = ?Ls @ map dropCR ?P" .
  have "fst (parseCrontabOutput n' (reconcile ?E T)) = fst (parseLoop (?Ls @ map dropCR ?P) ([], n'))"
    by (subst parseCrontabOutput_def) (simp only: sl)
  then have "map fieldsOf (fst (parseCrontabOutput n' (reconcile ?E T)))
          = List.map_filter classify (?Ls @ map dropCR ?P)"
    by (simp add: parseLoop_fields)
  also have "\<dots> = List.map_filter classify ?Ls @ List.map_filter classify (map dropCR ?P)"
    by (rule map_filter_append)
  also have "List.map_filter classify ?Ls = map fieldsOf ?E"
    by (rule map_filter_Some) (simp add: E)
  also have "List.map_filter classify (map dropCR ?P) = []"
    by (rule map_filter_None) (auto intro: preserved_dropCR)
  finally show ?thesis
    by (simp add: fieldsOf_conv)
qed

theorem parse_reconcile_roundtrip_witness:
  "map (\<lambda>e. (Enabled e, RawLine e))
     (fst (parseCrontabOutput 1
        (''MAILTO=root'' @ [CHR 0x0D, CHR 0x0D, CHR 0x0A] @
         ''*/5   *  * * * /usr/bin/foo  '' @ [CHR 0x0D, CHR 0x0D, CHR 0x0A] @
         ''# 0 3 * * * /bin/backup.sh\<newline>#note\<newline>'')))
   = [(True, ''*/5   *  * * * /usr/bin/foo  '' @ [CHR 0x0D]),
      (False, ''# 0 3 * * * /bin/backup.sh'')] \<and>
   \<not> HasSuffix ''# 0 3 * * * /bin/backup.sh'' [CHR 0x0D] \<and>
   map (\<lambda>e. (Minute e, Hour e, DayOfMonth e, Month e, DayOfWeek e, Command e, Enabled e))
     (fst (parseCrontabOutput 3
        (reconcile
           (fst (parseCrontabOutput 1
              (''MAILTO=root'' @ [CHR 0x0D, CHR 0x0D, CHR 0x0A] @
               ''*/5   *  * * * /usr/bin/foo  '' @ [CHR 0x0D, CHR 0x0D, CHR 0x0A] @
               ''# 0 3 * * * /bin/backup.sh\<newline>#note\<newline>'')))
           (''MAILTO=root'' @ [CHR 0x0D, CHR 0x0D, CHR 0x0A] @
            ''*/5   *  * * * /usr/bin/foo  '' @ [CHR 0x0D, CHR 0x0D, CHR 0x0A] @
            ''# 0 3 * * * /bin/backup.sh\<newline>#note\<newline>''))))
   = [(''*/5'', ''*'', ''*'', ''*'', ''*'', ''/usr/bin/foo'', True),
      (''0'', ''3'', ''*'', ''*'', ''*'', ''/bin/backup.sh'', False)]"
proof -
  let ?T = "''MAILTO=root'' @ [CHR 0x0D, CHR 0x0D, CHR 0x0A] @
            ''*/5   *  * * * /usr/bin/foo  '' @ [CHR 0x0D, CHR 0x0D, CHR 0x0A] @
            ''# 0 3 * * * /bin/backup.sh\<newline>#note\<newline>''"
  let ?ls = "[''MAILTO=root'' @ [CHR 0x0D], ''*/5   *  * * * /usr/bin/foo  '' @ [CHR 0x0D],
              ''# 0 3 * * * /bin/backup.sh'', ''#note'']"
  have l: "scanLines ?T = ?ls"
    by (simp add: scanLines.simps MaxScanTokenSize_def dropCR_def)
  have p: "map (\<lambda>e. (Minute e, Hour e, DayOfMonth e, Month e, DayOfWeek e, Command e, Enabled e))
        (fst (parseLoop ?ls ([], 1)))
      = [(''*/5'', ''*'', ''*'', ''*'', ''*'', ''/usr/bin/foo'', True),
         (''0'', ''3'', ''*'', ''*'', ''*'', ''/bin/backup.sh'', False)]"
    by code_simp
  have q: "map (\<lambda>e. (Minute e, Hour e, DayOfMonth e, Month e, DayOfWeek e, Command e, Enabled e))
        (fst (parseCrontabOutput 1 ?T))
      = [(''*/5'', ''*'', ''*'', ''*'', ''*'', ''/usr/bin/foo'', True),
         (''0'', ''3'', ''*'', ''*'', ''*'', ''/bin/backup.sh'', False)]"
    unfolding parseCrontabOutput_def l by (rule p)
  have p': "map (\<lambda>e. (Enabled e, RawLine e)) (fst (parseLoop ?ls ([], 1)))
      = [(True, ''*/5   *  * * * /usr/bin/foo  '' @ [CHR 0x0D]),
         (False, ''# 0 3 * * * /bin/backup.sh'')]"
    by code_simp
  have q': "map (\<lambda>e. (Enabled e, RawLine e)) (fst (parseCrontabOutput 1 ?T))
      = [(True, ''*/5   *  * * * /usr/bin/foo  '' @ [CHR 0x0D]),
         (False, ''# 0 3 * * * /bin/backup.sh'')]"
    unfolding parseCrontabOutput_def l by (rule p')
  have s: "\<not> HasSuffix ''# 0 3 * * * /bin/backup.sh'' [CHR 0x0D]"
    by (simp add: HasSuffix_def)
  have "\<forall>x \<in> set (map (\<lambda>e. (Enabled e, RawLine e)) (fst (parseCrontabOutput 1 ?T))).
          \<not> fst x \<longrightarrow> \<not> HasSuffix (snd x) [CHR 0x0D]"
    unfolding q' using s by simp
  then have h: "\<forall>e \<in> set (fst (parseCrontabOutput 1 ?T)).
             \<not> Enabled e \<longrightarrow> \<not> HasSuffix (RawLine e) [CHR 0x0D]"
    by simp
  from parse_reconcile_roundtrip [OF h, of 3] q q' s show ?thesis by (simp only: simp_thms)
qed

theorem parse_reconcile_roundtrip_counterexample:
  "map (\<lambda>e. (Minute e, Hour e, DayOfMonth e, Month e, DayOfWeek e, Command e, Enabled e))
     (fst (parseCrontabOutput 1 (''# a b c d e'' @ [CHR 0x0D, CHR 0x0D, CHR 0x0A])))
     = [(''a'', ''b'', ''c'', ''d'', ''e'', [], False)] \<and>
   reconcile (fst (parseCrontabOutput 1 (''# a b c d e'' @ [CHR 0x0D, CHR 0x0D, CHR 0x0A])))
       (''# a b c d e'' @ [CHR 0x0D, CHR 0x0D, CHR 0x0A])
     = ''# a b c d e'' @ [CHR 0x0D, CHR 0x0A] \<and>
   fst (parseCrontabOutput 2
         (reconcile (fst (parseCrontabOutput 1 (''# a b c d e'' @ [CHR 0x0D, CHR 0x0D, CHR 0x0A])))
            (''# a b c d e'' @ [CHR 0x0D, CHR 0x0D, CHR 0x0A])))
     = []"
proof -
  let ?e = "\<lparr>ID = 1, Minute = ''a'', Hour = ''b'', DayOfMonth = ''c'', Month = ''d'', DayOfWeek = ''e'',
             Command = [], RawLine = ''# a b c d e'' @ [CHR 0x0D], Comment = [], Enabled = False\<rparr>"
  have l: "scanLines (''# a b c d e'' @ [CHR 0x0D, CHR 0x0D, CHR 0x0A]) = [''# a b c d e'' @ [CHR 0x0D]]"
    "scanLines (''# a b c d e'' @ [CHR 0x0D, CHR 0x0A]) = [''# a b c d e'']"
    by (simp_all add: scanLines.simps MaxScanTokenSize_def dropCR_def)
  have e: "fst (parseLoop [''# a b c d e'' @ [CHR 0x0D]] ([], 1)) = [?e]"
    by code_simp
  have r: "mergeLoop [?e] [''# a b c d e'' @ [CHR 0x0D]] (fst (emitLoop [?e] ([], Map.empty)))
             = ''# a b c d e'' @ [CHR 0x0D, CHR 0x0A]"
    by code_simp
  have p: "fst (parseLoop [''# a b c d e''] ([], 2)) = []"
    by code_simp
  have E: "fst (parseCrontabOutput 1 (''# a b c d e'' @ [CHR 0x0D, CHR 0x0D, CHR 0x0A])) = [?e]"
    unfolding parseCrontabOutput_def l by (rule e)
  have R: "reconcile [?e] (''# a b c d e'' @ [CHR 0x0D, CHR 0x0D, CHR 0x0A])
             = ''# a b c d e'' @ [CHR 0x0D, CHR 0x0A]"
    unfolding reconcile_def l by (rule r)
  have P: "fst (parseCrontabOutput 2 (''# a b c d e'' @ [CHR 0x0D, CHR 0x0A])) = []"
    unfolding parseCrontabOutput_def l by (rule p)
  show ?thesis
    unfolding E R P by simp
qed

text \<open>
  C7. For a submitted entry that is enabled and has an empty \<open>RawLine\<close>, the merge writes
  its five schedule fields and its command, joined by single spaces, and a line feed, at
  the entry's place among the submitted entries and before every preserved line of the
  store. Submitting only the entry of the specification's third scenario gives
  \<^verbatim>\<open>0 3 * * * /bin/backup.sh\<close> and a line feed, followed by the preserved lines.
\<close>

theorem new_entry_canonical_first:
  assumes "Enabled e" and "RawLine e = []"
  shows "reconcile (es1 @ e # es2) T =
           concat (map entryText es1) @
           (Minute e @ '' '' @ Hour e @ '' '' @ DayOfMonth e @ '' '' @ Month e @ '' '' @
            DayOfWeek e @ '' '' @ Command e @ [CHR 0x0A]) @
           concat (map entryText es2) @
           concat (map (\<lambda>l. l @ [CHR 0x0A]) (filter (preserved (es1 @ e # es2)) (scanLines T))) \<and>
         reconcile [backupEntry n] T =
           ''0 3 * * * /bin/backup.sh\<newline>'' @
           concat (map (\<lambda>l. l @ [CHR 0x0A]) (filter (preserved [backupEntry n]) (scanLines T)))"
proof -
  have "entryText e =
          Minute e @ '' '' @ Hour e @ '' '' @ DayOfMonth e @ '' '' @ Month e @ '' '' @
          DayOfWeek e @ '' '' @ Command e @ [CHR 0x0A]"
    using assms by (simp add: entryText_cases canonical_def)
  moreover have "entryText (backupEntry n) = ''0 3 * * * /bin/backup.sh\<newline>''"
    by (simp add: entryText_cases backupEntry_def canonical_def)
  ultimately show ?thesis
    using reconcile_middle [of es1 e es2 T] reconcile_middle [of "[]" "backupEntry n" "[]" T]
    by simp
qed

theorem new_entry_canonical_first_witness:
  "Enabled (backupEntry 1\<lparr>Minute := ''15'', Command := ''/bin/true''\<rparr>) \<and>
   RawLine (backupEntry 1\<lparr>Minute := ''15'', Command := ''/bin/true''\<rparr>) = [] \<and>
   reconcile [fooEntry 1, backupEntry 1\<lparr>Minute := ''15'', Command := ''/bin/true''\<rparr>]
       ''MAILTO=root\<newline>#note\<newline>''
     = ''*/5 * * * * /usr/bin/foo\<newline>15 3 * * * /bin/true\<newline>MAILTO=root\<newline>#note\<newline>'' \<and>
   reconcile [backupEntry 1] ''MAILTO=root\<newline>#note\<newline>''
     = ''0 3 * * * /bin/backup.sh\<newline>MAILTO=root\<newline>#note\<newline>''"
proof -
  let ?x = "backupEntry 1\<lparr>Minute := ''15'', Command := ''/bin/true''\<rparr>"
  let ?T = "''MAILTO=root\<newline>#note\<newline>''"
  have l: "scanLines ?T = [''MAILTO=root'', ''#note'']"
    by (simp add: scanLines.simps MaxScanTokenSize_def dropCR_def)
  have a: "concat (map entryText [fooEntry 1]) = ''*/5 * * * * /usr/bin/foo\<newline>''"
    by code_simp
  have b: "filter (preserved ([fooEntry 1] @ ?x # [])) [''MAILTO=root'', ''#note'']
             = [''MAILTO=root'', ''#note'']"
    "filter (preserved [backupEntry 1]) [''MAILTO=root'', ''#note''] = [''MAILTO=root'', ''#note'']"
    by code_simp+
  have h: "Enabled ?x" "RawLine ?x = []"
    by (simp_all add: backupEntry_def)
  note inst = new_entry_canonical_first [OF h, of "[fooEntry 1]" "[]" ?T 1]
  from inst have "reconcile ([fooEntry 1] @ ?x # []) ?T =
           concat (map entryText [fooEntry 1]) @
           (Minute ?x @ '' '' @ Hour ?x @ '' '' @ DayOfMonth ?x @ '' '' @ Month ?x @ '' '' @
            DayOfWeek ?x @ '' '' @ Command ?x @ [CHR 0x0A]) @
           concat (map entryText []) @
           concat (map (\<lambda>l. l @ [CHR 0x0A]) (filter (preserved ([fooEntry 1] @ ?x # [])) (scanLines ?T)))"
    by (rule conjunct1)
  then have "reconcile [fooEntry 1, ?x] ?T
      = ''*/5 * * * * /usr/bin/foo\<newline>15 3 * * * /bin/true\<newline>MAILTO=root\<newline>#note\<newline>''"
    unfolding l a b by (simp add: backupEntry_def)
  moreover from inst have "reconcile [backupEntry 1] ?T =
          ''0 3 * * * /bin/backup.sh\<newline>'' @
          concat (map (\<lambda>l. l @ [CHR 0x0A]) (filter (preserved [backupEntry 1]) (scanLines ?T)))"
    by (rule conjunct2)
  then have "reconcile [backupEntry 1] ?T
      = ''0 3 * * * /bin/backup.sh\<newline>MAILTO=root\<newline>#note\<newline>''"
    unfolding l b by simp
  ultimately show ?thesis
    using h by simp
qed

text \<open>
  C8. When \<^verbatim>\<open>crontab -l\<close> exits with a non-zero status and its captured
  standard error contains \<^verbatim>\<open>no crontab for\<close>, the handler answers with the empty
  list of entries and leaves the state as it is. On every other failure it answers with
  the status 500 and the message \<^verbatim>\<open>Failed to list crontab: \<close> followed by the
  error's own text, which for a non-zero exit is the exit status and not the captured
  output.
\<close>

theorem list_failure_response:
  "(Contains se ''no crontab for'' \<longrightarrow>
      getCrontab srv (out, Some (ExitError ps se)) = (Entries [], srv)) \<and>
   (\<not> Contains se ''no crontab for'' \<longrightarrow>
      getCrontab srv (out, Some (ExitError ps se))
        = (HttpError 500 (''Failed to list crontab: '' @ ps @ [CHR 0x0A]), srv)) \<and>
   getCrontab srv (out, Some (OtherError msg))
     = (HttpError 500 (''Failed to list crontab: '' @ msg @ [CHR 0x0A]), srv)"
  by (simp add: getCrontab_def StatusInternalServerError_def)

theorem list_failure_response_witness:
  "Contains ''no crontab for root'' ''no crontab for'' \<and>
   getCrontab \<lparr>currentCrontabEntries = [fooEntry 1], nextEntryID = 2\<rparr>
       ([], Some (ExitError ''exit status 1'' ''no crontab for root''))
     = (Entries [], \<lparr>currentCrontabEntries = [fooEntry 1], nextEntryID = 2\<rparr>) \<and>
   \<not> Contains ''crontab: must be privileged'' ''no crontab for'' \<and>
   getCrontab \<lparr>currentCrontabEntries = [fooEntry 1], nextEntryID = 2\<rparr>
       ([], Some (ExitError ''exit status 1'' ''crontab: must be privileged''))
     = (HttpError 500 ''Failed to list crontab: exit status 1\<newline>'',
        \<lparr>currentCrontabEntries = [fooEntry 1], nextEntryID = 2\<rparr>)"
proof -
  have c: "Contains ''no crontab for root'' ''no crontab for''"
          "\<not> Contains ''crontab: must be privileged'' ''no crontab for''"
    by code_simp+
  from c list_failure_response
         [of "''no crontab for root''" "\<lparr>currentCrontabEntries = [fooEntry 1], nextEntryID = 2\<rparr>"
             "[]" "''exit status 1''"]
       list_failure_response
         [of "''crontab: must be privileged''" "\<lparr>currentCrontabEntries = [fooEntry 1], nextEntryID = 2\<rparr>"
             "[]" "''exit status 1''"]
  show ?thesis by simp
qed

theorem list_failure_counterexample:
  "fst (getCrontab \<lparr>currentCrontabEntries = [], nextEntryID = 1\<rparr>
          ([], Some (ExitError ''exit status 1'' ''crontab: must be privileged'')))
     = HttpError 500 ''Failed to list crontab: exit status 1\<newline>'' \<and>
   \<not> Contains ''Failed to list crontab: exit status 1\<newline>'' ''crontab: must be privileged''"
proof -
  have c: "\<not> Contains ''crontab: must be privileged'' ''no crontab for''"
          "\<not> Contains ''Failed to list crontab: exit status 1\<newline>'' ''crontab: must be privileged''"
    by code_simp+
  then show ?thesis
    by (simp add: getCrontab_def StatusInternalServerError_def del: Contains.simps)
qed




text \<open>
  C10. When some submitted entry has an empty \<open>RawLine\<close>, the second loop writes nothing
  for an empty line of the store: no preserved line is empty.
\<close>

theorem new_entry_drops_empty_lines:
  assumes "e \<in> set es" and "RawLine e = []"
  shows "mergeLine es [] buf = buf \<and>
         reconcile es T =
           concat (map entryText es) @
           concat (map (\<lambda>l. l @ [CHR 0x0A]) (filter (\<lambda>l. l \<noteq> [] \<and> preserved es l) (scanLines T)))"
proof -
  from assms have "[] \<in> RawLine ` set es" by force
  then have n: "\<not> preserved es []" by (simp add: preserved_iff)
  then have "filter (preserved es) (scanLines T) = filter (\<lambda>l. l \<noteq> [] \<and> preserved es l) (scanLines T)"
    by (intro filter_cong) auto
  with n show ?thesis by (simp add: mergeLine_eq reconcile_eq)
qed

theorem new_entry_drops_empty_lines_witness:
  "backupEntry 1 \<in> set [backupEntry 1] \<and> RawLine (backupEntry 1) = [] \<and>
   scanLines ''MAILTO=root\<newline>\<newline>#note\<newline>\<newline>'' = [''MAILTO=root'', [], ''#note'', []] \<and>
   reconcile [backupEntry 1] ''MAILTO=root\<newline>\<newline>#note\<newline>\<newline>''
     = ''0 3 * * * /bin/backup.sh\<newline>MAILTO=root\<newline>#note\<newline>''"
proof -
  have l: "scanLines ''MAILTO=root\<newline>\<newline>#note\<newline>\<newline>'' = [''MAILTO=root'', [], ''#note'', []]"
    by (simp add: scanLines.simps MaxScanTokenSize_def dropCR_def)
  have a: "concat (map entryText [backupEntry 1]) = ''0 3 * * * /bin/backup.sh\<newline>''"
    by code_simp
  have b: "filter (\<lambda>l. l \<noteq> [] \<and> preserved [backupEntry 1] l) [''MAILTO=root'', [], ''#note'', []]
             = [''MAILTO=root'', ''#note'']"
    by code_simp
  have h: "backupEntry 1 \<in> set [backupEntry 1]" "RawLine (backupEntry 1) = []"
    by (simp_all add: backupEntry_def)
  from new_entry_drops_empty_lines
         [OF h, of "[]" "''MAILTO=root\<newline>\<newline>#note\<newline>\<newline>''"]
  have "reconcile [backupEntry 1] ''MAILTO=root\<newline>\<newline>#note\<newline>\<newline>'' =
          concat (map entryText [backupEntry 1]) @
          concat (map (\<lambda>l. l @ [CHR 0x0A])
            (filter (\<lambda>l. l \<noteq> [] \<and> preserved [backupEntry 1] l)
               (scanLines ''MAILTO=root\<newline>\<newline>#note\<newline>\<newline>'')))"
    by blast
  then show ?thesis
    using h l unfolding l a b by simp
qed

end
